theory Spec2Isabelle
  imports Complex_Main "HOL-Library.Multiset"
begin

section \<open>The workflow engine of eNMS: data model\<close>

text \<open>
  Python exceptions that the modelled code can raise are values of \<open>error\<close>; a function
  that may raise returns \<open>error + 'a\<close> with \<open>Inl\<close> for the exception.
\<close>

datatype error = ZeroDivisionError | KeyError | IndexError | UnicodeEncodeError
  | UnicodeDecodeError | BinasciiError | InvalidToken | ValueError | TypeError

text \<open>
  The columns of \<open>Service\<close> (models/automation.py) that \<open>Workflow.job\<close> reads.
  \<open>id\<close> is renamed \<open>service_id\<close>. The ORM keeps one object per primary key, so
  object identity of two services is equality of their \<open>service_id\<close>.
\<close>

record service =
  service_id :: int
  name :: string
  scoped_name :: string
  priority :: int
  maximum_runs :: int
  skip :: "string \<rightharpoonup> bool"
  skip_value :: string

text \<open>\<open>WorkflowEdge\<close> (services/workflow/workflow.py): \<open>edge.workflow.name\<close> is \<open>workflow_name\<close>.\<close>

record edge =
  edge_id :: int
  subtype :: string
  source :: service
  destination :: service
  workflow_name :: string

section \<open>The pending heap: heapq over tuples (1 / priority, service)\<close>

text \<open>
  A heap entry is the tuple \<open>(1 / service.priority, service)\<close>. The key is a Python
  float: true division of two ints gives the double nearest to the quotient, ties to
  even. \<open>float_reciprocal p\<close> is that double as a rational, for an int \<open>p\<close> other than 0:
  with \<open>2 ^ (k - 1) < \<bar>p\<bar> \<le> 2 ^ k\<close> the quotient lies between \<open>2 ^ - k\<close> and
  \<open>2 ^ (1 - k)\<close>, where doubles are the multiples of \<open>2 ^ - (52 + k)\<close>. (Priorities are
  SQL integers of at most 64 bits, so the quotient is far inside the range of normal
  doubles.)
\<close>

fun bit_length :: "nat \<Rightarrow> nat" where
  "bit_length n = (if n = 0 then 0 else Suc (bit_length (n div 2)))"

declare bit_length.simps [simp del]

definition round_half_even :: "nat \<Rightarrow> nat \<Rightarrow> nat" where
  "round_half_even n a =
     (let q = n div a; r = n mod a
      in if 2 * r < a then q
         else if a < 2 * r then q + 1
         else if even q then q else q + 1)"

definition float_reciprocal :: "int \<Rightarrow> rat" where
  "float_reciprocal p =
     (let a = nat \<bar>p\<bar>;
          n = 2 ^ (52 + bit_length (a - 1))
      in (if p < 0 then - 1 else 1) * (of_nat (round_half_even n a) / of_nat n))"

type_synonym entry = "rat \<times> service"

text \<open>
  Python compares tuples at the first position where they differ. When the keys are equal
  the services are compared: the same object makes the tuples equal (so \<open><\<close> is False),
  two different services are compared with \<open>AbstractBase.__lt__\<close>, which returns True.
\<close>

definition service_lt :: "service \<Rightarrow> service \<Rightarrow> bool" where
  "service_lt self other = True"

definition entry_lt :: "entry \<Rightarrow> entry \<Rightarrow> bool" where
  "entry_lt x y =
     (if fst x = fst y
      then (if service_id (snd x) = service_id (snd y) then False
            else service_lt (snd x) (snd y))
      else fst x < fst y)"

text \<open>
  \<open>heapq._siftdown(heap, startpos, pos)\<close>: the loop carries \<open>newitem\<close> up while it is
  less than the parent, then stores it.
\<close>

function siftdown_loop :: "entry list \<Rightarrow> entry \<Rightarrow> nat \<Rightarrow> nat \<Rightarrow> entry list" where
  "siftdown_loop heap newitem startpos pos =
     (if pos > startpos then
        (let parentpos = (pos - 1) div 2;
             parent = heap ! parentpos
         in if entry_lt newitem parent
            then siftdown_loop (heap[pos := parent]) newitem startpos parentpos
            else heap[pos := newitem])
      else heap[pos := newitem])"
  by pat_completeness auto

termination
  by (relation "measure (\<lambda>(heap, newitem, startpos, pos). pos)") auto

declare siftdown_loop.simps [simp del]

definition siftdown :: "entry list \<Rightarrow> nat \<Rightarrow> nat \<Rightarrow> entry list" where
  "siftdown heap startpos pos = siftdown_loop heap (heap ! pos) startpos pos"

text \<open>
  \<open>heapq._siftup(heap, pos)\<close>: the smaller child is moved up until a leaf is reached;
  the loop returns the heap and the position of that leaf.
\<close>

function siftup_loop :: "entry list \<Rightarrow> nat \<Rightarrow> nat \<Rightarrow> entry list \<times> nat" where
  "siftup_loop heap endpos pos =
     (let childpos = 2 * pos + 1 in
      if childpos < endpos then
        (let rightpos = childpos + 1;
             childpos' = (if rightpos < endpos \<and> \<not> entry_lt (heap ! childpos) (heap ! rightpos)
                          then rightpos else childpos)
         in siftup_loop (heap[pos := heap ! childpos']) endpos childpos')
      else (heap, pos))"
  by pat_completeness auto

termination
  by (relation "measure (\<lambda>(heap, endpos, pos). endpos - pos)") (auto simp: Let_def)

declare siftup_loop.simps [simp del]

definition siftup :: "entry list \<Rightarrow> nat \<Rightarrow> entry list" where
  "siftup heap pos =
     (let endpos = length heap;
          startpos = pos;
          newitem = heap ! pos
      in case siftup_loop heap endpos pos of
           (heap', pos') \<Rightarrow> siftdown (heap'[pos' := newitem]) startpos pos')"

definition heappush :: "entry list \<Rightarrow> entry \<Rightarrow> entry list" where
  "heappush heap item = siftdown (heap @ [item]) 0 (length heap)"

text \<open>\<open>heap.pop()\<close> on the empty list raises IndexError.\<close>

definition heappop :: "entry list \<Rightarrow> error + (entry \<times> entry list)" where
  "heappop heap =
     (if heap = [] then Inl IndexError
      else let lastelt = last heap; heap' = butlast heap
           in if heap' \<noteq> []
              then (let returnitem = heap' ! 0
                    in Inr (returnitem, siftup (heap'[0 := lastelt]) 0))
              else Inr (lastelt, heap'))"

section \<open>Workflow.job\<close>

subsection \<open>Results of a service, calls of \<open>run.write_state\<close>\<close>

text \<open>
  A bucket of a summary is a list of device names (what a Runner reports) or the set
  \<open>targets[service.name]\<close> (what \<open>job\<close> synthesizes for a skipped service). The three
  functions are Python's truth value, \<open>len\<close> and \<open>set\<close>.
\<close>

datatype bucket = DevList "string list" | DevSet "string set"

fun bucket_truthy :: "bucket \<Rightarrow> bool" where
  "bucket_truthy (DevList xs) = (xs \<noteq> [])"
| "bucket_truthy (DevSet S) = (S \<noteq> {})"

fun bucket_len :: "bucket \<Rightarrow> int" where
  "bucket_len (DevList xs) = int (length xs)"
| "bucket_len (DevSet S) = int (card S)"

fun bucket_set :: "bucket \<Rightarrow> string set" where
  "bucket_set (DevList xs) = set xs"
| "bucket_set (DevSet S) = S"

text \<open>
  The results dict of one service: each field is a key, \<open>None\<close> when the key is absent.
  An empty (falsy) results value is \<open>None :: results option\<close>.
\<close>

record results =
  res_success :: "bool option"
  res_result :: "string option"
  res_summary :: "(string \<rightharpoonup> bucket) option"

text \<open>
  \<open>run.write_state(path, value, method)\<close> belongs to the Run class, which is outside the
  files modelled here: \<open>job\<close> is modelled with the sequence of calls it makes. The paths are
  \<open>f"edges/{edge.id}"\<close> and \<open>f"progress/service/{status}"\<close>; the third component is the
  method argument, \<open>None\<close> when the call omits it.
\<close>

datatype path = EdgesPath int | ProgressServicePath string

datatype state_value = IntValue int | StrValue string

datatype write_call = WriteState path state_value "string option"

subsection \<open>Inputs and local state of \<open>job\<close>\<close>

text \<open>
  The fields of the Run that \<open>job\<close> reads. \<open>start_services\<close> holds the services that
  \<open>db.fetch("service", id=service_id)\<close> returns for the ids of \<open>run.start_services\<close>, and
  \<open>target_devices\<close> the names of \<open>run.target_devices\<close>. \<open>run.stop\<close> is set by another
  thread: \<open>stop n\<close> is its value when loop iteration \<open>n\<close> begins.
\<close>

record 'p run =
  run_method :: string
  start_services :: "service list"
  target_devices :: "string list"
  stop :: "nat \<Rightarrow> bool"
  payload :: 'p
  placeholder :: service

text \<open>
  Everything else \<open>job(self, run, device)\<close> depends on: the name of the workflow, the rows
  of the workflow_edge table (\<open>Service.destinations\<close> is the backref of \<open>WorkflowEdge.source\<close>),
  the services \<open>Start\<close> and \<open>End\<close> that \<open>db.fetch\<close> returns, the name of the device argument
  (\<open>None\<close> when absent), and the Runner. The Runner class is outside the files modelled
  here and is a parameter: \<open>runner n service target_devices\<close> is the \<open>results\<close> attribute
  of the Runner built in iteration \<open>n\<close> for \<open>service\<close>, with the keyword argument
  \<open>target_devices\<close> when it is passed.
\<close>

record 'p job_args =
  self_name :: string
  db_edges :: "edge list"
  db_start :: service
  db_end :: service
  device :: "string option"
  run :: "'p run"
  runner :: "nat \<Rightarrow> service \<Rightarrow> string set option \<Rightarrow> results option"

text \<open>
  The local variables of \<open>job\<close>: the two defaultdicts, the heap \<open>services\<close>, the set
  \<open>visited\<close> (of primary keys), together with the calls of \<open>run.write_state\<close> made so far
  and the number of loop iterations begun.
\<close>

record job_state =
  number_of_runs :: "string \<Rightarrow> int"
  targets :: "string \<Rightarrow> string set"
  services :: "entry list"
  visited :: "int set"
  state_writes :: "write_call list"
  iteration :: nat

text \<open>
  What \<open>job\<close> returns: the dict with keys payload, success and, depending on the branch,
  result or summary. The lists of the final summary are built from sets, so their order
  is not determined; they are modelled as the sets.
\<close>

record 'p job_result =
  out_payload :: 'p
  out_success :: bool
  out_result :: "string option"
  out_summary :: "(string \<rightharpoonup> string set) option"

subsection \<open>Seeding the heap\<close>

text \<open>\<open>1 / service.priority\<close>: true division raises ZeroDivisionError on 0.\<close>

definition heap_key :: "service \<Rightarrow> error + rat" where
  "heap_key s =
     (if priority s = 0 then Inl ZeroDivisionError else Inr (float_reciprocal (priority s)))"

definition start_targets :: "'p job_args \<Rightarrow> string list" where
  "start_targets a = (case device a of Some d \<Rightarrow> [d] | None \<Rightarrow> target_devices (run a))"

fun seed :: "'p job_args \<Rightarrow> job_state \<Rightarrow> service list \<Rightarrow> error + job_state" where
  "seed a st [] = Inr st"
| "seed a st (service # rest) =
     (let st1 = st\<lparr>targets := (targets st)
                   (name service := targets st (name service) \<union> set (start_targets a))\<rparr>
      in case heap_key service of
           Inl e \<Rightarrow> Inl e
         | Inr k \<Rightarrow> seed a (st1\<lparr>services := heappush (services st1) (k, service)\<rparr>) rest)"

definition empty_state :: job_state where
  "empty_state = \<lparr>number_of_runs = (\<lambda>_. 0), targets = (\<lambda>_. {}), services = [],
                   visited = {}, state_writes = [], iteration = 0\<rparr>"

definition job_init :: "'p job_args \<Rightarrow> error + job_state" where
  "job_init a =
     seed a empty_state
       (if start_services (run a) = [] then [db_start a] else start_services (run a))"

subsection \<open>The loop body\<close>

definition tracking_bfs :: "'p job_args \<Rightarrow> bool" where
  "tracking_bfs a = (run_method (run a) = ''per_service_with_workflow_targets'')"

text \<open>The condition \<open>tracking_bfs or device\<close>.\<close>

definition tracking_bfs_or_device :: "'p job_args \<Rightarrow> bool" where
  "tracking_bfs_or_device a = (tracking_bfs a \<or> device a \<noteq> None)"

text \<open>\<open>service in (start, end) or service.skip.get(self.name, False)\<close>\<close>

definition is_skipped :: "'p job_args \<Rightarrow> service \<Rightarrow> bool" where
  "is_skipped a s =
     (service_id s = service_id (db_start a) \<or> service_id s = service_id (db_end a) \<or>
      (case skip s (self_name a) of Some b \<Rightarrow> b | None \<Rightarrow> False))"

text \<open>\<open>Service.neighbors(workflow, "destination", subtype)\<close>\<close>

definition destinations :: "edge list \<Rightarrow> service \<Rightarrow> edge list" where
  "destinations es s = filter (\<lambda>e. service_id (source e) = service_id s) es"

definition neighbors :: "edge list \<Rightarrow> service \<Rightarrow> string \<Rightarrow> string \<Rightarrow> (service \<times> edge) list" where
  "neighbors es s workflow sub =
     map (\<lambda>e. (destination e, e))
       (filter (\<lambda>e. subtype e = sub \<and> workflow_name e = workflow) (destinations es s))"

text \<open>The synthesized results of a skipped service (lines 132 to 138).\<close>

definition skipped_results :: "'p job_args \<Rightarrow> job_state \<Rightarrow> service \<Rightarrow> results" where
  "skipped_results a st s =
     \<lparr>res_success = Some (skip_value s = ''success''),
      res_result = Some ''skipped'',
      res_summary =
        (if tracking_bfs_or_device a
         then Some [''success'' \<mapsto> DevSet (targets st (name s)), ''failure'' \<mapsto> DevList []]
         else None)\<rparr>"

text \<open>The Runner call of the else branch (lines 140 to 156).\<close>

definition runner_results :: "'p job_args \<Rightarrow> job_state \<Rightarrow> service \<Rightarrow> results option" where
  "runner_results a st s =
     runner a (iteration st)
       (if scoped_name s = ''Placeholder'' then placeholder (run a) else s)
       (if tracking_bfs_or_device a then Some (targets st (name s)) else None)"

text \<open>The body of the inner loop over \<open>service.neighbors(...)\<close> (lines 171 to 179).\<close>

definition visit_successor ::
  "'p job_args \<Rightarrow> (string \<rightharpoonup> bucket) \<Rightarrow> string \<Rightarrow> job_state \<Rightarrow> service \<times> edge \<Rightarrow> error + job_state" where
  "visit_successor a summary edge_type st se =
     (case se of (successor, edge) \<Rightarrow>
        (case (if tracking_bfs_or_device a
               then (case summary edge_type of
                       None \<Rightarrow> Inl KeyError
                     | Some b \<Rightarrow> Inr (st\<lparr>targets := (targets st)
                          (name successor := targets st (name successor) \<union> bucket_set b)\<rparr>))
               else Inr st) of
           Inl e \<Rightarrow> Inl e
         | Inr st1 \<Rightarrow>
            (case heap_key successor of
               Inl e \<Rightarrow> Inl e
             | Inr k \<Rightarrow>
                (let st2 = st1\<lparr>services := heappush (services st1) (k, successor)\<rparr>
                 in if tracking_bfs_or_device a
                    then (case summary edge_type of
                            None \<Rightarrow> Inl KeyError
                          | Some b \<Rightarrow> Inr (st2\<lparr>state_writes := state_writes st2 @
                              [WriteState (EdgesPath (edge_id edge)) (IntValue (bucket_len b))
                                 (Some ''increment'')]\<rparr>))
                    else Inr (st2\<lparr>state_writes := state_writes st2 @
                              [WriteState (EdgesPath (edge_id edge)) (StrValue ''DONE'') None]\<rparr>)))))"

fun visit_successors ::
  "'p job_args \<Rightarrow> (string \<rightharpoonup> bucket) \<Rightarrow> string \<Rightarrow> job_state \<Rightarrow> (service \<times> edge) list \<Rightarrow> error + job_state" where
  "visit_successors a summary edge_type st [] = Inr st"
| "visit_successors a summary edge_type st (se # rest) =
     (case visit_successor a summary edge_type st se of
        Inl e \<Rightarrow> Inl e
      | Inr st' \<Rightarrow> visit_successors a summary edge_type st' rest)"

text \<open>One round of \<open>for edge_type in ("success", "failure")\<close> (lines 164 to 179).\<close>

definition follow_edges ::
  "'p job_args \<Rightarrow> service \<Rightarrow> string \<Rightarrow> (string \<rightharpoonup> bucket) \<Rightarrow> string \<Rightarrow> job_state \<Rightarrow> error + job_state" where
  "follow_edges a s status summary edge_type st =
     (if \<not> tracking_bfs a \<and> edge_type \<noteq> status then Inr st
      else if tracking_bfs a
      then (case summary edge_type of
              None \<Rightarrow> Inl KeyError
            | Some b \<Rightarrow>
                if \<not> bucket_truthy b then Inr st
                else visit_successors a summary edge_type st
                       (neighbors (db_edges a) s (self_name a) edge_type))
      else visit_successors a summary edge_type st
             (neighbors (db_edges a) s (self_name a) edge_type))"

text \<open>Lines 159 to 179: what \<open>job\<close> does with the non-empty results of a service.\<close>

definition propagate :: "'p job_args \<Rightarrow> service \<Rightarrow> results \<Rightarrow> job_state \<Rightarrow> error + job_state" where
  "propagate a s res st =
     (case res_success res of
        None \<Rightarrow> Inl KeyError
      | Some ok \<Rightarrow>
         (let status = (if ok then ''success'' else ''failure'');
              summary = (case res_summary res of None \<Rightarrow> Map.empty | Some m \<Rightarrow> m);
              st1 = (if \<not> tracking_bfs a \<and> device a = None
                     then st\<lparr>state_writes := state_writes st @
                            [WriteState (ProgressServicePath status) (IntValue 1)
                               (Some ''increment'')]\<rparr>
                     else st)
          in case follow_edges a s status summary ''success'' st1 of
               Inl e \<Rightarrow> Inl e
             | Inr st2 \<Rightarrow> follow_edges a s status summary ''failure'' st2))"

text \<open>
  Lines 126 to 179: one iteration after the test of \<open>run.stop\<close>. A \<open>continue\<close> is the
  state with which the next iteration begins.
\<close>

definition loop_body :: "'p job_args \<Rightarrow> job_state \<Rightarrow> error + job_state" where
  "loop_body a st =
     (case heappop (services st) of
        Inl e \<Rightarrow> Inl e
      | Inr (item, heap') \<Rightarrow>
         (let s = snd item;
              st1 = st\<lparr>services := heap', iteration := Suc (iteration st)\<rparr>
          in if number_of_runs st1 (name s) \<ge> maximum_runs s then Inr st1
             else
               (let st2 = st1\<lparr>number_of_runs := (number_of_runs st1)
                                 (name s := number_of_runs st1 (name s) + 1),
                               visited := insert (service_id s) (visited st1)\<rparr>
                in if is_skipped a s
                   then propagate a s (skipped_results a st2 s) st2
                   else (case runner_results a st s of
                           None \<Rightarrow> Inr st2
                         | Some res \<Rightarrow> propagate a s res st2))))"

text \<open>Lines 180 to 191: the value returned when the heap is empty.\<close>

definition final_results :: "'p job_args \<Rightarrow> job_state \<Rightarrow> 'p job_result" where
  "final_results a st =
     (if tracking_bfs_or_device a
      then (let failed = targets st (name (db_start a)) - targets st (name (db_end a));
                summary = [''success'' \<mapsto> targets st (name (db_end a)), ''failure'' \<mapsto> failed]
            in \<lparr>out_payload = payload (run a), out_success = (failed = {}),
                out_result = None, out_summary = Some summary\<rparr>)
      else \<lparr>out_payload = payload (run a),
            out_success = (service_id (db_end a) \<in> visited st),
            out_result = None, out_summary = None\<rparr>)"

definition aborted :: "'p job_args \<Rightarrow> 'p job_result" where
  "aborted a = \<lparr>out_payload = payload (run a), out_success = False,
                out_result = Some ''Aborted'', out_summary = None\<rparr>"

subsection \<open>The loop and the whole of \<open>job\<close>\<close>

text \<open>
  \<open>while services:\<close> with the test of \<open>run.stop\<close> at the top of each iteration. The value
  is the exception raised, or the returned dict together with the state of the local
  variables and of the \<open>write_state\<close> calls at the return.
\<close>

function job_loop :: "'p job_args \<Rightarrow> job_state \<Rightarrow> error + ('p job_result \<times> job_state)" where
  "job_loop a st =
     (if services st = [] then Inr (final_results a st, st)
      else if stop (run a) (iteration st) then Inr (aborted a, st)
      else (case loop_body a st of
              Inl e \<Rightarrow> Inl e
            | Inr st' \<Rightarrow> job_loop a st'))"
  by pat_completeness auto

definition job :: "'p job_args \<Rightarrow> error + ('p job_result \<times> job_state)" where
  "job a = (case job_init a of Inl e \<Rightarrow> Inl e | Inr st \<Rightarrow> job_loop a st)"

text \<open>The state with which iteration \<open>n\<close> begins, when the loop gets that far.\<close>

fun job_iter :: "'p job_args \<Rightarrow> nat \<Rightarrow> job_state \<Rightarrow> job_state option" where
  "job_iter a 0 st = Some st"
| "job_iter a (Suc n) st =
     (if services st = [] \<or> stop (run a) (iteration st) then None
      else (case loop_body a st of Inl e \<Rightarrow> None | Inr st' \<Rightarrow> job_iter a n st'))"

text \<open>
  The service that the iteration beginning in \<open>st\<close> dispatches (runs or synthesizes
  skipped results for): the popped service, unless the loop ends, the run is stopped or
  the service has reached \<open>maximum_runs\<close>.
\<close>

definition dispatched :: "'p job_args \<Rightarrow> job_state \<Rightarrow> service option" where
  "dispatched a st =
     (if services st = [] \<or> stop (run a) (iteration st) then None
      else (case heappop (services st) of
              Inl e \<Rightarrow> None
            | Inr (item, heap') \<Rightarrow>
                if number_of_runs st (name (snd item)) \<ge> maximum_runs (snd item) then None
                else Some (snd item)))"

text \<open>The number of dispatches of \<open>s\<close> in the first \<open>n\<close> iterations from \<open>st\<close>.\<close>

fun dispatch_count :: "'p job_args \<Rightarrow> service \<Rightarrow> nat \<Rightarrow> job_state \<Rightarrow> nat" where
  "dispatch_count a s 0 st = 0"
| "dispatch_count a s (Suc n) st =
     (if dispatched a st = Some s then 1 else 0) +
     (if services st = [] \<or> stop (run a) (iteration st) then 0
      else (case loop_body a st of Inl e \<Rightarrow> 0 | Inr st' \<Rightarrow> dispatch_count a s n st'))"

subsection \<open>Invariants used in the proofs\<close>

text \<open>The heap property on the keys: no entry has a smaller key than its parent.\<close>

definition heap_ok :: "entry list \<Rightarrow> bool" where
  "heap_ok h = (\<forall>i < length h. 0 < i \<longrightarrow> fst (h ! ((i - 1) div 2)) \<le> fst (h ! i))"

text \<open>
  \<open>_siftdown\<close> carries \<open>newitem\<close> towards the root: with \<open>newitem\<close> at \<open>pos\<close> the heap
  property holds everywhere except between \<open>pos\<close> and its parent, and the children of
  \<open>pos\<close> are not below the parent of \<open>pos\<close>.
\<close>

definition hole_ok :: "entry list \<Rightarrow> entry \<Rightarrow> nat \<Rightarrow> bool" where
  "hole_ok heap newitem pos =
     (pos < length heap \<and>
      (\<forall>i < length heap. 0 < i \<longrightarrow> i \<noteq> pos \<longrightarrow>
          fst ((heap[pos := newitem]) ! ((i - 1) div 2)) \<le> fst ((heap[pos := newitem]) ! i)) \<and>
      (\<forall>i < length heap. 0 < i \<longrightarrow> (i - 1) div 2 = pos \<longrightarrow> 0 < pos \<longrightarrow>
          fst (heap ! ((pos - 1) div 2)) \<le> fst (heap ! i)))"

text \<open>
  The first loop of \<open>_siftup\<close> moves a hole down: the heap property holds for every entry
  whose parent is not \<open>pos\<close>, and the children of \<open>pos\<close> are not below the parent of \<open>pos\<close>.
\<close>

definition descent_ok :: "entry list \<Rightarrow> nat \<Rightarrow> bool" where
  "descent_ok heap pos =
     ((\<forall>i < length heap. 0 < i \<longrightarrow> (i - 1) div 2 \<noteq> pos \<longrightarrow>
          fst (heap ! ((i - 1) div 2)) \<le> fst (heap ! i)) \<and>
      (\<forall>i < length heap. 0 < i \<longrightarrow> (i - 1) div 2 = pos \<longrightarrow> 0 < pos \<longrightarrow>
          fst (heap ! ((pos - 1) div 2)) \<le> fst (heap ! i)))"

text \<open>
  The measure that decreases with every iteration: the services that can still be
  pushed are those in the heap and the destinations of the edges; each can be dispatched
  only while its run count is below its \<open>maximum_runs\<close>, and a dispatch pushes at most
  two times the number of edges.
\<close>

definition pending_services :: "'p job_args \<Rightarrow> job_state \<Rightarrow> service set" where
  "pending_services a st = snd ` set (services st) \<union> destination ` set (db_edges a)"

definition runs_left :: "'p job_args \<Rightarrow> job_state \<Rightarrow> nat" where
  "runs_left a st =
     (\<Sum>s \<in> pending_services a st. nat (maximum_runs s - number_of_runs st (name s)))"

definition loop_measure :: "'p job_args \<Rightarrow> job_state \<Rightarrow> nat" where
  "loop_measure a st =
     (2 * length (db_edges a) + 1) * runs_left a st + length (services st)"

text \<open>What the loop body does to the heap for one successor whose priority is not 0.\<close>

definition push_service :: "entry list \<Rightarrow> service \<Rightarrow> entry list" where
  "push_service h s = heappush h (float_reciprocal (priority s), s)"

definition entries_ok :: "entry list \<Rightarrow> bool" where
  "entries_ok h =
     (\<forall>x \<in> set h. priority (snd x) \<noteq> 0 \<and> fst x = float_reciprocal (priority (snd x)))"

definition taken_edges ::
  "'p job_args \<Rightarrow> service \<Rightarrow> (string \<rightharpoonup> bucket) \<Rightarrow> string \<Rightarrow> (service \<times> edge) list" where
  "taken_edges a s summary edge_type =
     (case summary edge_type of
        None \<Rightarrow> []
      | Some b \<Rightarrow> if bucket_truthy b then neighbors (db_edges a) s (self_name a) edge_type else [])"

definition edge_increment :: "bucket \<Rightarrow> service \<times> edge \<Rightarrow> write_call" where
  "edge_increment b se =
     WriteState (EdgesPath (edge_id (snd se))) (IntValue (bucket_len b)) (Some ''increment'')"

text \<open>The \<open>write_state\<close> call of line 179, for a run that does not track devices.\<close>

definition edge_done :: "service \<times> edge \<Rightarrow> write_call" where
  "edge_done se = WriteState (EdgesPath (edge_id (snd se))) (StrValue ''DONE'') None"

subsection \<open>Conditions on a run\<close>

text \<open>
  The Runner is outside \<open>job\<close>. It reports given devices when every bucket of a summary
  it returns holds only devices that were passed to it as \<open>target_devices\<close>.
\<close>

definition runner_reports_given :: "'p job_args \<Rightarrow> bool" where
  "runner_reports_given a =
     (\<forall>n s T res m t b. runner a n s (Some T) = Some res \<longrightarrow> res_summary res = Some m \<longrightarrow>
        m t = Some b \<longrightarrow> bucket_set b \<subseteq> T)"

text \<open>
  \<open>Start\<close> is among the services seeded by the loop over \<open>run.start_services or [start.id]\<close>
  (\<open>targets\<close> is keyed by the name of a service).
\<close>

definition start_is_seeded :: "'p job_args \<Rightarrow> bool" where
  "start_is_seeded a =
     (name (db_start a) \<in>
        name ` set (if start_services (run a) = [] then [db_start a] else start_services (run a)))"

subsection \<open>Sample workflows\<close>

definition sample_service :: "int \<Rightarrow> string \<Rightarrow> int \<Rightarrow> int \<Rightarrow> service" where
  "sample_service i n p m =
     \<lparr>service_id = i, name = n, scoped_name = n, priority = p, maximum_runs = m,
      skip = Map.empty, skip_value = ''success''\<rparr>"

definition sample_edge :: "int \<Rightarrow> string \<Rightarrow> service \<Rightarrow> service \<Rightarrow> edge" where
  "sample_edge i t s d =
     \<lparr>edge_id = i, subtype = t, source = s, destination = d, workflow_name = ''w''\<rparr>"

definition Start :: service where "Start = sample_service 1 ''Start'' 1 1"

definition End :: service where "End = sample_service 2 ''End'' 1 1"

definition A :: service where "A = sample_service 3 ''A'' 1 1"

definition success_results :: "string list \<Rightarrow> results" where
  "success_results ds =
     \<lparr>res_success = Some True, res_result = None,
      res_summary = Some [''success'' \<mapsto> DevList ds, ''failure'' \<mapsto> DevList []]\<rparr>"

definition d1_runner :: "nat \<Rightarrow> service \<Rightarrow> string set option \<Rightarrow> results option" where
  "d1_runner n s t = Some (success_results [''d1''])"

definition never_stopped :: "nat \<Rightarrow> bool" where "never_stopped n = False"

definition stopped_at_1 :: "nat \<Rightarrow> bool" where "stopped_at_1 n = (n = 1)"

definition sample_args ::
  "string \<Rightarrow> service list \<Rightarrow> (nat \<Rightarrow> bool) \<Rightarrow> edge list \<Rightarrow>
   (nat \<Rightarrow> service \<Rightarrow> string set option \<Rightarrow> results option) \<Rightarrow> unit job_args" where
  "sample_args method starts stopped es r =
     \<lparr>self_name = ''w'', db_edges = es, db_start = Start, db_end = End, device = None,
      run = \<lparr>run_method = method, start_services = starts, target_devices = [''d1''],
             stop = stopped, payload = (), placeholder = A\<rparr>,
      runner = r\<rparr>"

definition linear_edges :: "edge list" where
  "linear_edges = [sample_edge 1 ''success'' Start A, sample_edge 2 ''success'' A End]"

definition linear_args :: "unit job_args" where
  "linear_args = sample_args ''per_service_with_workflow_targets'' [] never_stopped linear_edges d1_runner"

definition stopped_args :: "unit job_args" where
  "stopped_args = sample_args ''per_service_with_workflow_targets'' [] stopped_at_1 linear_edges d1_runner"

definition seeded_state :: job_state where
  "seeded_state =
     \<lparr>number_of_runs = (\<lambda>_. 0), targets = (\<lambda>_. {})(''Start'' := {''d1''}),
      services = [(1, Start)], visited = {}, state_writes = [], iteration = 0\<rparr>"

definition after_start_state :: job_state where
  "after_start_state =
     \<lparr>number_of_runs = (\<lambda>_. 0)(''Start'' := 1),
      targets = (\<lambda>_. {})(''Start'' := {''d1''}, ''A'' := {''d1''}),
      services = [(1, A)], visited = {1},
      state_writes = [WriteState (EdgesPath 1) (IntValue 1) (Some ''increment'')],
      iteration = 1\<rparr>"

definition B :: service where "B = sample_service 4 ''B'' 1 1"

definition Urgent :: service where "Urgent = sample_service 5 ''Urgent'' 2 1"

definition Twice :: service where "Twice = sample_service 6 ''Twice'' 1 2"

definition Zero :: service where "Zero = sample_service 7 ''Zero'' 0 1"

definition bare_runner :: "nat \<Rightarrow> service \<Rightarrow> string set option \<Rightarrow> results option" where
  "bare_runner n s t = Some \<lparr>res_success = Some True, res_result = None, res_summary = None\<rparr>"

definition no_runner :: "nat \<Rightarrow> service \<Rightarrow> string set option \<Rightarrow> results option" where
  "no_runner n s t = None"

definition service_targets_args :: "unit job_args" where
  "service_targets_args =
     sample_args ''per_service_with_service_targets'' [] never_stopped linear_edges d1_runner"

definition restart_args :: "unit job_args" where
  "restart_args =
     sample_args ''per_service_with_workflow_targets'' [A] never_stopped linear_edges d1_runner"

definition bare_args :: "unit job_args" where
  "bare_args =
     sample_args ''per_service_with_workflow_targets'' [] never_stopped linear_edges bare_runner"

definition zero_args :: "unit job_args" where
  "zero_args =
     sample_args ''per_service_with_workflow_targets'' [Zero] never_stopped linear_edges d1_runner"

definition tie_edges :: "edge list" where
  "tie_edges = [sample_edge 1 ''success'' Start A, sample_edge 2 ''success'' Start B]"

definition tie_args :: "unit job_args" where
  "tie_args = sample_args ''per_service_with_workflow_targets'' [] never_stopped tie_edges d1_runner"

definition tie_state :: job_state where
  "tie_state =
     \<lparr>number_of_runs = (\<lambda>_. 0)(''Start'' := 1),
      targets = (\<lambda>_. {})(''Start'' := {''d1''}, ''A'' := {''d1''}, ''B'' := {''d1''}),
      services = [(1, B), (1, A)], visited = {1},
      state_writes = [WriteState (EdgesPath 1) (IntValue 1) (Some ''increment''),
                      WriteState (EdgesPath 2) (IntValue 1) (Some ''increment'')],
      iteration = 1\<rparr>"

definition fork_edges :: "edge list" where
  "fork_edges = [sample_edge 1 ''success'' Start A, sample_edge 2 ''success'' Start Urgent]"

definition fork_args :: "unit job_args" where
  "fork_args = sample_args ''per_service_with_workflow_targets'' [] never_stopped fork_edges d1_runner"

definition fork_state :: job_state where
  "fork_state =
     \<lparr>number_of_runs = (\<lambda>_. 0)(''Start'' := 1),
      targets = (\<lambda>_. {})(''Start'' := {''d1''}, ''A'' := {''d1''}, ''Urgent'' := {''d1''}),
      services = [(1 / 2, Urgent), (1, A)], visited = {1},
      state_writes = [WriteState (EdgesPath 1) (IntValue 1) (Some ''increment''),
                      WriteState (EdgesPath 2) (IntValue 1) (Some ''increment'')],
      iteration = 1\<rparr>"

definition twice_edges :: "edge list" where
  "twice_edges = [sample_edge 1 ''success'' Start Twice, sample_edge 2 ''success'' Twice Twice,
                  sample_edge 3 ''success'' Twice End]"

definition twice_args :: "unit job_args" where
  "twice_args = sample_args ''per_service_with_workflow_targets'' [] never_stopped twice_edges d1_runner"

definition restart_final_state :: job_state where
  "restart_final_state =
     \<lparr>number_of_runs = (\<lambda>_. 0)(''A'' := 1, ''End'' := 1),
      targets = (\<lambda>_. {})(''A'' := {''d1''}, ''End'' := {''d1''}),
      services = [], visited = {2, 3},
      state_writes = [WriteState (EdgesPath 2) (IntValue 1) (Some ''increment'')],
      iteration = 2\<rparr>"

definition linear_final_state :: job_state where
  "linear_final_state =
     \<lparr>number_of_runs = (\<lambda>_. 0)(''Start'' := 1, ''A'' := 1, ''End'' := 1),
      targets = (\<lambda>_. {})(''Start'' := {''d1''}, ''A'' := {''d1''}, ''End'' := {''d1''}),
      services = [], visited = {2, 3, 1},
      state_writes = [WriteState (EdgesPath 1) (IntValue 1) (Some ''increment''),
                      WriteState (EdgesPath 2) (IntValue 1) (Some ''increment'')],
      iteration = 3\<rparr>"

definition linear_result :: "unit job_result" where
  "linear_result =
     \<lparr>out_payload = (), out_success = True, out_result = None,
      out_summary = Some [''success'' \<mapsto> {''d1''}, ''failure'' \<mapsto> {}]\<rparr>"

definition Hi :: service where "Hi = sample_service 8 ''Hi'' 8556839292003943 1"
definition Lo :: service where "Lo = sample_service 9 ''Lo'' 8556839292003942 1"
definition Neg :: service where "Neg = sample_service 10 ''Neg'' (- 1) 1"
definition Never :: service where "Never = sample_service 11 ''Never'' 1 (- 1)"

definition honest_runner :: "nat \<Rightarrow> service \<Rightarrow> string set option \<Rightarrow> results option" where
  "honest_runner n s t =
     (case t of
        None \<Rightarrow> None
      | Some T \<Rightarrow> Some \<lparr>res_success = Some True, res_result = None,
                        res_summary = Some [''success'' \<mapsto> DevSet T, ''failure'' \<mapsto> DevList []]\<rparr>)"

definition d2_runner :: "nat \<Rightarrow> service \<Rightarrow> string set option \<Rightarrow> results option" where
  "d2_runner n s t = Some (success_results [''d2''])"

definition honest_args :: "unit job_args" where
  "honest_args =
     sample_args ''per_service_with_workflow_targets'' [] never_stopped linear_edges honest_runner"

definition d2_args :: "unit job_args" where
  "d2_args = sample_args ''per_service_with_workflow_targets'' [] never_stopped linear_edges d2_runner"

definition collide_edges :: "edge list" where
  "collide_edges = [sample_edge 1 ''success'' Start Hi, sample_edge 2 ''success'' Start Lo]"

definition collide_args :: "unit job_args" where
  "collide_args =
     sample_args ''per_service_with_workflow_targets'' [] never_stopped collide_edges d1_runner"

definition negative_edges :: "edge list" where
  "negative_edges = [sample_edge 1 ''success'' Start Neg, sample_edge 2 ''success'' Start A]"

definition negative_args :: "unit job_args" where
  "negative_args =
     sample_args ''per_service_with_workflow_targets'' [] never_stopped negative_edges d1_runner"

definition never_args :: "unit job_args" where
  "never_args =
     sample_args ''per_service_with_workflow_targets'' [Never] never_stopped linear_edges d1_runner"

definition never_state :: job_state where
  "never_state =
     \<lparr>number_of_runs = (\<lambda>_. 0), targets = (\<lambda>_. {})(''Never'' := {''d1''}),
      services = [(1, Never)], visited = {}, state_writes = [], iteration = 0\<rparr>"

definition capped_state :: job_state where
  "capped_state =
     \<lparr>number_of_runs = (\<lambda>_. 0)(''Start'' := 1, ''End'' := 1),
      targets = (\<lambda>_. {})(''Start'' := {''d1''}, ''End'' := {''d1''}),
      services = [(1, End)], visited = {1, 2}, state_writes = [], iteration = 2\<rparr>"

section \<open>Stored secrets: Environment.encrypt_password and get_password\<close>

text \<open>
  environment.py, lines 62 to 72 and 95 to 101. A Python \<open>str\<close> is a list of code points (any
  number below 0x110000, lone surrogates included), \<open>bytes\<close> a list of 8-bit characters.
  \<open>str.encode\<close> and \<open>str(b, utf-8)\<close> are the strict UTF-8 codec.
\<close>

type_synonym bytes = string

type_synonym str = "nat list"

definition surrogate :: "nat \<Rightarrow> bool" where
  "surrogate cp = (55296 \<le> cp \<and> cp \<le> 57343)"

definition utf8_encode_char :: "nat \<Rightarrow> error + bytes" where
  "utf8_encode_char cp =
     (if cp < 128 then Inr [char_of cp]
      else if cp < 2048 then Inr [char_of (192 + cp div 64), char_of (128 + cp mod 64)]
      else if cp < 65536 then
        (if surrogate cp then Inl UnicodeEncodeError
         else Inr [char_of (224 + cp div 4096), char_of (128 + cp div 64 mod 64),
                   char_of (128 + cp mod 64)])
      else if cp < 1114112 then
        Inr [char_of (240 + cp div 262144), char_of (128 + cp div 4096 mod 64),
             char_of (128 + cp div 64 mod 64), char_of (128 + cp mod 64)]
      else Inl UnicodeEncodeError)"

fun str_encode :: "str \<Rightarrow> error + bytes" where
  "str_encode [] = Inr []"
| "str_encode (cp # s) =
     (case utf8_encode_char cp of
        Inl e \<Rightarrow> Inl e
      | Inr bs \<Rightarrow> (case str_encode s of Inl e \<Rightarrow> Inl e | Inr rest \<Rightarrow> Inr (bs @ rest)))"

definition continuation :: "char \<Rightarrow> bool" where
  "continuation c = (128 \<le> (of_char c :: nat) \<and> (of_char c :: nat) < 192)"

text \<open>One character of the strict UTF-8 decoder: the code point and the remaining bytes.\<close>

definition decode_char :: "char \<Rightarrow> bytes \<Rightarrow> error + (nat \<times> bytes)" where
  "decode_char c cs =
     (let b0 = (of_char c :: nat) in
      if b0 < 128 then Inr (b0, cs)
      else if 194 \<le> b0 \<and> b0 < 224 then
        (case cs of
           c1 # cs' \<Rightarrow>
             if continuation c1
             then Inr ((b0 - 192) * 64 + (of_char c1 - 128), cs')
             else Inl UnicodeDecodeError
         | _ \<Rightarrow> Inl UnicodeDecodeError)
      else if 224 \<le> b0 \<and> b0 < 240 then
        (case cs of
           c1 # c2 # cs' \<Rightarrow>
             (let cp = (b0 - 224) * 4096 + (of_char c1 - 128) * 64 + (of_char c2 - 128) in
              if continuation c1 \<and> continuation c2 \<and> 2048 \<le> cp \<and> \<not> surrogate cp
              then Inr (cp, cs')
              else Inl UnicodeDecodeError)
         | _ \<Rightarrow> Inl UnicodeDecodeError)
      else if 240 \<le> b0 \<and> b0 < 245 then
        (case cs of
           c1 # c2 # c3 # cs' \<Rightarrow>
             (let cp = (b0 - 240) * 262144 + (of_char c1 - 128) * 4096 +
                       (of_char c2 - 128) * 64 + (of_char c3 - 128) in
              if continuation c1 \<and> continuation c2 \<and> continuation c3 \<and>
                 65536 \<le> cp \<and> cp < 1114112
              then Inr (cp, cs')
              else Inl UnicodeDecodeError)
         | _ \<Rightarrow> Inl UnicodeDecodeError)
      else Inl UnicodeDecodeError)"

function bytes_decode :: "bytes \<Rightarrow> error + str" where
  "bytes_decode [] = Inr []"
| "bytes_decode (c # cs) =
     (case decode_char c cs of
        Inl e \<Rightarrow> Inl e
      | Inr (cp, rest) \<Rightarrow>
          (case bytes_decode rest of Inl e \<Rightarrow> Inl e | Inr s \<Rightarrow> Inr (cp # s)))"
  by pat_completeness auto

text \<open>
  \<open>base64.b64encode\<close> and \<open>base64.b64decode\<close>; the decoder is \<open>binascii.a2b_base64\<close>, which
  skips the characters outside the alphabet and stops at the padding that completes a quad.
\<close>

definition b64_char :: "nat \<Rightarrow> char" where
  "b64_char i =
     (if i < 26 then char_of (65 + i)
      else if i < 52 then char_of (71 + i)
      else if i < 62 then char_of (i - 4)
      else if i = 62 then CHR ''+'' else CHR ''/'')"

definition b64_index :: "char \<Rightarrow> nat option" where
  "b64_index c =
     (let n = (of_char c :: nat) in
      if 65 \<le> n \<and> n \<le> 90 then Some (n - 65)
      else if 97 \<le> n \<and> n \<le> 122 then Some (n - 71)
      else if 48 \<le> n \<and> n \<le> 57 then Some (n + 4)
      else if n = 43 then Some 62
      else if n = 47 then Some 63
      else None)"

fun b64encode :: "bytes \<Rightarrow> bytes" where
  "b64encode [] = []"
| "b64encode [a] =
     (let x = (of_char a :: nat)
      in [b64_char (x div 4), b64_char (x mod 4 * 16), CHR ''='', CHR ''=''])"
| "b64encode [a, b] =
     (let x = (of_char a :: nat); y = (of_char b :: nat)
      in [b64_char (x div 4), b64_char (x mod 4 * 16 + y div 16), b64_char (y mod 16 * 4),
          CHR ''=''])"
| "b64encode (a # b # c # rest) =
     (let x = (of_char a :: nat); y = (of_char b :: nat); z = (of_char c :: nat)
      in [b64_char (x div 4), b64_char (x mod 4 * 16 + y div 16),
          b64_char (y mod 16 * 4 + z div 64), b64_char (z mod 64)] @ b64encode rest)"

fun a2b_base64 :: "bytes \<Rightarrow> nat \<Rightarrow> nat \<Rightarrow> nat \<Rightarrow> bytes \<Rightarrow> error + bytes" where
  "a2b_base64 [] quad_pos leftchar pads bin_data =
     (if quad_pos \<noteq> 0 then Inl BinasciiError else Inr bin_data)"
| "a2b_base64 (this_ch # ascii_data) quad_pos leftchar pads bin_data =
     (if this_ch = CHR ''='' then
        (if quad_pos \<ge> 2 \<and> quad_pos + (pads + 1) \<ge> 4 then Inr bin_data
         else a2b_base64 ascii_data quad_pos leftchar
                (if quad_pos \<ge> 2 then pads + 1 else pads) bin_data)
      else
        (case b64_index this_ch of
           None \<Rightarrow> a2b_base64 ascii_data quad_pos leftchar pads bin_data
         | Some v \<Rightarrow>
             if quad_pos = 0 then a2b_base64 ascii_data 1 v 0 bin_data
             else if quad_pos = 1 then
               a2b_base64 ascii_data 2 (v mod 16) 0 (bin_data @ [char_of (leftchar * 4 + v div 16)])
             else if quad_pos = 2 then
               a2b_base64 ascii_data 3 (v mod 4) 0 (bin_data @ [char_of (leftchar * 16 + v div 4)])
             else
               a2b_base64 ascii_data 0 0 0 (bin_data @ [char_of (leftchar * 64 + v)])))"

definition encodable :: "str \<Rightarrow> bool" where
  "encodable s = (\<forall>cp \<in> set s. cp < 1114112 \<and> \<not> surrogate cp)"

text \<open>The values passed as a password: \<open>None\<close>, a \<open>str\<close> or \<open>bytes\<close>.\<close>

datatype pyobject = PyNone | Str str | Bytes bytes

fun truthy :: "pyobject \<Rightarrow> bool" where
  "truthy PyNone = False"
| "truthy (Str s) = (s \<noteq> [])"
| "truthy (Bytes b) = (b \<noteq> [])"

fun b64decode :: "pyobject \<Rightarrow> error + bytes" where
  "b64decode (Bytes b) = a2b_base64 b 0 0 0 []"
| "b64decode (Str s) =
     (if \<forall>cp \<in> set s. cp < 128 then a2b_base64 (map char_of s) 0 0 0 []
      else Inl ValueError)"
| "b64decode PyNone = Inl TypeError"

text \<open>
  \<open>Fernet\<close> belongs to the cryptography package: a Fernet object is the pair of its methods,
  and the constructor, which may refuse the key, is a parameter of \<open>init_encryption\<close>.
  \<open>encrypt\<close> reads the clock and draws a random IV; the number passed to it stands for both.
\<close>

record fernet =
  fernet_encrypt :: "nat \<Rightarrow> bytes \<Rightarrow> bytes"
  fernet_decrypt :: "pyobject \<Rightarrow> error + bytes"

record environment =
  fernet_encryption :: "string option"
  encrypt :: "nat \<Rightarrow> bytes \<Rightarrow> bytes"
  decrypt :: "pyobject \<Rightarrow> error + bytes"

definition init_encryption ::
  "(string \<Rightarrow> error + fernet) \<Rightarrow> string option \<Rightarrow> error + environment" where
  "init_encryption Fernet key =
     (case key of
        Some k \<Rightarrow>
          if k \<noteq> [] then
            (case Fernet k of
               Inl e \<Rightarrow> Inl e
             | Inr f \<Rightarrow> Inr \<lparr>fernet_encryption = key, encrypt = fernet_encrypt f,
                              decrypt = fernet_decrypt f\<rparr>)
          else Inr \<lparr>fernet_encryption = key, encrypt = (\<lambda>n. b64encode), decrypt = b64decode\<rparr>
      | None \<Rightarrow> Inr \<lparr>fernet_encryption = key, encrypt = (\<lambda>n. b64encode), decrypt = b64decode\<rparr>)"

definition encrypt_password :: "environment \<Rightarrow> nat \<Rightarrow> pyobject \<Rightarrow> error + bytes" where
  "encrypt_password self n password =
     (case password of
        Str s \<Rightarrow> (case str_encode s of Inl e \<Rightarrow> Inl e | Inr b \<Rightarrow> Inr (encrypt self n b))
      | Bytes b \<Rightarrow> Inr (encrypt self n b)
      | PyNone \<Rightarrow> Inl TypeError)"

definition get_password :: "environment \<Rightarrow> pyobject \<Rightarrow> error + str option" where
  "get_password self password =
     (if \<not> truthy password then Inr None
      else
        (case (case password of
                 Str s \<Rightarrow>
                   if fernet_encryption self \<noteq> None \<and> fernet_encryption self \<noteq> Some []
                   then (case str_encode s of Inl e \<Rightarrow> Inl e | Inr b \<Rightarrow> Inr (Bytes b))
                   else Inr password
               | _ \<Rightarrow> Inr password) of
           Inl e \<Rightarrow> Inl e
         | Inr password' \<Rightarrow>
             (case decrypt self password' of
                Inl e \<Rightarrow> Inl e
              | Inr b \<Rightarrow> (case bytes_decode b of Inl e \<Rightarrow> Inl e | Inr s \<Rightarrow> Inr (Some s)))))"

text \<open>What the proofs expect of Fernet: \<open>decrypt\<close> inverts \<open>encrypt\<close>, and a token is not empty.\<close>

definition fernet_contract :: "(string \<Rightarrow> error + fernet) \<Rightarrow> bool" where
  "fernet_contract Fernet =
     (\<forall>k f n b. Fernet k = Inr f \<longrightarrow>
        fernet_decrypt f (Bytes (fernet_encrypt f n b)) = Inr b \<and> fernet_encrypt f n b \<noteq> [])"

text \<open>A stand-in for Fernet that accepts keys of 44 characters and marks the plaintext.\<close>

definition sample_Fernet :: "string \<Rightarrow> error + fernet" where
  "sample_Fernet k =
     (if length k = 44
      then Inr \<lparr>fernet_encrypt = (\<lambda>n b. CHR ''g'' # b),
                fernet_decrypt = (\<lambda>token. case token of
                                   Bytes (c # b) \<Rightarrow> if c = CHR ''g'' then Inr b else Inl InvalidToken
                                 | _ \<Rightarrow> Inl InvalidToken)\<rparr>
      else Inl ValueError)"

definition plain_environment :: environment where
  "plain_environment = \<lparr>fernet_encryption = None, encrypt = (\<lambda>n. b64encode), decrypt = b64decode\<rparr>"

definition sample_key :: string where
  "sample_key = ''AAAAAAAAAAAAAAAAAAAAAAAAAAAAAAAAAAAAAAAAAAA=''"

section \<open>The scheduler client of Task\<close>

text \<open>
  automation.py, lines 518 to 551. The values returned are JSON values; the exceptions are
  those of \<open>requests\<close> that the wrapper names, together with one that is an \<open>Exception\<close> and
  not caught by name at each place, and \<open>KeyboardInterrupt\<close>, which is not an \<open>Exception\<close>.
  \<open>ConnectTimeout\<close> is a subclass of \<open>ConnectionError\<close>.
\<close>

datatype json = JNull | JBool bool | JNum int | JStr string | JArr "json list"
  | JObj "(string \<times> json) list"

datatype exception_class = RequestsConnectionError | ConnectTimeout | MissingSchema | ReadTimeout
  | JSONDecodeError | AttributeError | KeyboardInterrupt

record exception =
  exc_class :: exception_class
  exc_message :: string

definition isinstance_ConnectionError :: "exception \<Rightarrow> bool" where
  "isinstance_ConnectionError e =
     (exc_class e = RequestsConnectionError \<or> exc_class e = ConnectTimeout)"

definition isinstance_Exception :: "exception \<Rightarrow> bool" where
  "isinstance_Exception e = (exc_class e \<noteq> KeyboardInterrupt)"

text \<open>The wrapper \<open>_catch_request_exceptions\<close>, applied to what the wrapped call does.\<close>

definition catch_request_exceptions :: "exception + json \<Rightarrow> exception + json" where
  "catch_request_exceptions r =
     (case r of
        Inr v \<Rightarrow> Inr v
      | Inl exc \<Rightarrow>
          if isinstance_ConnectionError exc \<or> exc_class exc = MissingSchema \<or>
             exc_class exc = ReadTimeout
          then Inr (JStr ''Scheduler Unreachable'')
          else if isinstance_Exception exc
          then Inr (JStr (''Error ('' @ exc_message exc @ '')''))
          else Inl exc)"

text \<open>
  A response is what its \<open>json()\<close> does; \<open>get(...).json()\<close> raises what \<open>get\<close> raises or what
  \<open>json()\<close> raises.
\<close>

type_synonym response = "exception + json"

definition response_json :: "exception + response \<Rightarrow> exception + json" where
  "response_json http = (case http of Inl e \<Rightarrow> Inl e | Inr resp \<Rightarrow> resp)"

definition next_run_time :: "exception + response \<Rightarrow> exception + json" where
  "next_run_time http = catch_request_exceptions (response_json http)"

definition time_before_next_run :: "exception + response \<Rightarrow> exception + json" where
  "time_before_next_run http = catch_request_exceptions (response_json http)"

record task =
  is_active :: json
  last_scheduled_by :: string

text \<open>
  What the calls made by \<open>schedule\<close> do: \<open>self.get_properties()\<close>, \<open>post(...)\<close> and
  \<open>current_user.name\<close>.
\<close>

record schedule_calls =
  get_properties :: "exception + json"
  post_response :: "exception + response"
  current_user_name :: "exception + string"

definition alert :: json where
  "alert = JObj [(''alert'', JStr ''Scheduler Unreachable: the task cannot be scheduled.'')]"

fun type_name :: "json \<Rightarrow> string" where
  "type_name JNull = ''NoneType''"
| "type_name (JBool b) = ''bool''"
| "type_name (JNum n) = ''int''"
| "type_name (JStr s) = ''str''"
| "type_name (JArr xs) = ''list''"
| "type_name (JObj kvs) = ''dict''"

definition result_get :: "json \<Rightarrow> string \<Rightarrow> json \<Rightarrow> exception + json" where
  "result_get result key dflt =
     (case result of
        JObj kvs \<Rightarrow> Inr (case map_of kvs key of Some v \<Rightarrow> v | None \<Rightarrow> dflt)
      | _ \<Rightarrow> Inl \<lparr>exc_class = AttributeError,
                  exc_message = [CHR 0x27] @ type_name result @ [CHR 0x27] @
                                '' object has no attribute '' @ [CHR 0x27] @ ''get'' @ [CHR 0x27]\<rparr>)"

text \<open>The body of \<open>schedule\<close> with the task it leaves, then \<open>schedule\<close> under the wrapper.\<close>

definition schedule_body :: "schedule_calls \<Rightarrow> task \<Rightarrow> (exception + json) \<times> task" where
  "schedule_body c self =
     (case (case get_properties c of
              Inl e \<Rightarrow> Inl e
            | Inr properties \<Rightarrow>
               (case response_json (post_response c) of
                  Inl e \<Rightarrow> Inl e
                | Inr result \<Rightarrow>
                   (case current_user_name c of
                      Inl e \<Rightarrow> Inl e
                    | Inr user \<Rightarrow> Inr (result, user)))) of
        Inl e \<Rightarrow> if isinstance_ConnectionError e then (Inr alert, self) else (Inl e, self)
      | Inr (result, user) \<Rightarrow>
          (let self1 = self\<lparr>last_scheduled_by := user\<rparr>
           in case result_get result ''active'' (JBool False) of
                Inl e \<Rightarrow> (Inl e, self1)
              | Inr active \<Rightarrow> (Inr result, self1\<lparr>is_active := active\<rparr>)))"

definition schedule :: "schedule_calls \<Rightarrow> task \<Rightarrow> (exception + json) \<times> task" where
  "schedule c self =
     (case schedule_body c self of (r, self') \<Rightarrow> (catch_request_exceptions r, self'))"

definition refused :: exception where
  "refused = \<lparr>exc_class = RequestsConnectionError, exc_message = ''Connection refused''\<rparr>"

definition timed_out :: exception where
  "timed_out = \<lparr>exc_class = ReadTimeout, exc_message = ''Read timed out.''\<rparr>"

definition malformed :: exception where
  "malformed = \<lparr>exc_class = JSONDecodeError,
                 exc_message = ''Expecting value: line 1 column 1 (char 0)''\<rparr>"

definition interrupted :: exception where
  "interrupted = \<lparr>exc_class = KeyboardInterrupt, exc_message = []\<rparr>"

definition idle_task :: task where
  "idle_task = \<lparr>is_active = JBool False, last_scheduled_by = []\<rparr>"

definition sample_calls :: "exception + response \<Rightarrow> schedule_calls" where
  "sample_calls http =
     \<lparr>get_properties = Inr (JObj []), post_response = http, current_user_name = Inr ''admin''\<rparr>"

section \<open>Properties of the float keys\<close>

lemma bit_length_bound: "n < 2 ^ bit_length n"
proof (induction n rule: bit_length.induct)
  case (1 n)
  show ?case
  proof (cases "n = 0")
    case True
    then show ?thesis by (simp add: bit_length.simps)
  next
    case False
    have "n div 2 < 2 ^ bit_length (n div 2)" using "1.IH"[OF False] .
    then have "n < 2 * 2 ^ bit_length (n div 2)" by linarith
    then show ?thesis using False by (subst bit_length.simps) simp
  qed
qed

lemma round_half_even_error:
  assumes "0 < a"
  shows "2 * \<bar>int (round_half_even n a) * int a - int n\<bar> \<le> int a"
proof -
  define q where "q = n div a"
  define r where "r = n mod a"
  have n: "n = q * a + r" by (simp add: q_def r_def)
  have r: "r < a" using assms by (simp add: r_def)
  have n': "int n = int q * int a + int r" using n by (metis of_nat_add of_nat_mult)
  consider "2 * r < a" | "a < 2 * r" | "2 * r = a" by linarith
  then show ?thesis
  proof cases
    case 1
    then have "round_half_even n a = q" by (simp add: round_half_even_def q_def r_def Let_def)
    then show ?thesis using 1 n' by simp
  next
    case 2
    then have "round_half_even n a = q + 1" by (simp add: round_half_even_def q_def r_def Let_def)
    then show ?thesis using 2 r n' by (simp add: algebra_simps)
  next
    case 3
    then have "round_half_even n a = q \<or> round_half_even n a = q + 1"
      by (simp add: round_half_even_def q_def r_def Let_def)
    then show ?thesis using 3 n' by (auto simp: algebra_simps)
  qed
qed

lemma float_reciprocal_error:
  assumes "0 < p"
  shows "\<bar>float_reciprocal p * of_int p - 1\<bar> \<le> 1 / 2 ^ 53"
    and "0 \<le> float_reciprocal p"
proof -
  define a where "a = nat \<bar>p\<bar>"
  define k where "k = bit_length (a - 1)"
  define n :: nat where "n = 2 ^ (52 + k)"
  define m where "m = round_half_even n a"
  have a: "0 < a" "int a = p" using assms by (simp_all add: a_def)
  have key: "float_reciprocal p = of_nat m / of_nat n"
    using assms by (simp add: float_reciprocal_def Let_def a_def k_def n_def m_def)
  have "a - 1 < 2 ^ k" unfolding k_def by (rule bit_length_bound)
  then have ak: "a \<le> 2 ^ k" by linarith
  have "2 ^ 52 * a \<le> (2 ^ 52 * 2 ^ k :: nat)" using ak by simp
  then have "int (2 ^ 52 * a) \<le> int (2 ^ 52 * 2 ^ k)" by (simp only: of_nat_le_iff)
  then have na: "2 ^ 52 * int a \<le> int n"
    by (simp add: n_def power_add)
  have n0: "0 < n" by (simp add: n_def)
  have e: "2 * \<bar>int m * int a - int n\<bar> \<le> int a"
    unfolding m_def by (rule round_half_even_error[OF a(1)])
  have "2 ^ 53 * \<bar>int m * int a - int n\<bar> = 2 ^ 52 * (2 * \<bar>int m * int a - int n\<bar>)" by simp
  also have "\<dots> \<le> 2 ^ 52 * int a" using e by simp
  also have "\<dots> \<le> int n" by (rule na)
  finally have i: "2 ^ 53 * \<bar>int m * int a - int n\<bar> \<le> int n" .
  have "of_int (2 ^ 53 * \<bar>int m * int a - int n\<bar>) \<le> (of_int (int n) :: rat)"
    using i by (simp only: of_int_le_iff)
  then have r: "2 ^ 53 * \<bar>of_nat m * of_int p - of_nat n\<bar> \<le> (of_nat n :: rat)"
    by (simp add: a(2)[symmetric])
  have "float_reciprocal p * of_int p - 1 = (of_nat m * of_int p - of_nat n) / of_nat n"
    using n0 by (simp add: key diff_divide_distrib)
  then have "\<bar>float_reciprocal p * of_int p - 1\<bar> = \<bar>of_nat m * of_int p - of_nat n\<bar> / of_nat n"
    using n0 by simp
  also have "\<dots> \<le> 1 / 2 ^ 53"
  proof -
    have n1: "(0 :: rat) < of_nat n" using n0 by simp
    have "\<bar>of_nat m * of_int p - of_nat n\<bar> * 2 ^ 53 \<le> (of_nat n :: rat)"
      using r by (simp only: mult.commute)
    then have "\<bar>of_nat m * of_int p - of_nat n\<bar> \<le> (of_nat n :: rat) / 2 ^ 53"
      by (simp only: pos_le_divide_eq[of "2 ^ 53"] zero_less_power zero_less_numeral)
    also have "\<dots> = (1 / 2 ^ 53) * of_nat n" by simp
    finally show ?thesis using n1 by (simp only: pos_divide_le_eq)
  qed
  finally show "\<bar>float_reciprocal p * of_int p - 1\<bar> \<le> 1 / 2 ^ 53" .
  show "0 \<le> float_reciprocal p" by (simp add: key)
qed

lemma float_reciprocal_strict:
  assumes "0 < p" and "p < q" and "p < 2 ^ 52"
  shows "float_reciprocal q < float_reciprocal p"
proof (rule ccontr)
  assume "\<not> float_reciprocal q < float_reciprocal p"
  then have xy: "float_reciprocal p \<le> float_reciprocal q" by simp
  define x where "x = float_reciprocal p"
  define y where "y = float_reciprocal q"
  define P :: rat where "P = of_int p"
  define Q :: rat where "Q = of_int q"
  have q0: "0 < q" using assms by simp
  have ex: "\<bar>x * P - 1\<bar> \<le> 1 / 2 ^ 53" and x0: "0 \<le> x"
    using float_reciprocal_error[OF assms(1)] by (simp_all add: x_def P_def)
  have ey: "\<bar>y * Q - 1\<bar> \<le> 1 / 2 ^ 53"
    using float_reciprocal_error[OF q0] by (simp_all add: y_def Q_def)
  have P: "1 \<le> P" "P \<le> 2 ^ 52 - 1" "P + 1 \<le> Q"
  proof -
    show "1 \<le> P" using assms(1) by (simp add: P_def)
    have "p \<le> 2 ^ 52 - 1" using assms(3) by simp
    then have "(of_int p :: rat) \<le> of_int (2 ^ 52 - 1)" by (simp only: of_int_le_iff)
    then show "P \<le> 2 ^ 52 - 1" by (simp add: P_def)
    have "p + 1 \<le> q" using assms(2) by simp
    then have "(of_int (p + 1) :: rat) \<le> of_int q" by (simp only: of_int_le_iff)
    then show "P + 1 \<le> Q" by (simp add: P_def Q_def)
  qed
  define e :: rat where "e = 1 / 2 ^ 53"
  have ex1: "1 - e \<le> x * P" using ex unfolding e_def[symmetric] by (simp only: abs_le_iff) linarith
  have ey1: "y * Q \<le> 1 + e" using ey unfolding e_def[symmetric] by (simp only: abs_le_iff) linarith
  have xy': "x \<le> y" using xy by (simp add: x_def y_def)
  have "x * (P + 1) \<le> x * Q" using P(3) x0 by (rule mult_left_mono)
  moreover have "x * Q \<le> y * Q" using xy' P by (intro mult_right_mono) simp_all
  ultimately have 1: "x * P + x \<le> y * Q" by (simp add: algebra_simps)
  have 2: "x \<le> 2 * e" using 1 ex1 ey1 by linarith
  have "x * P \<le> (2 * e) * P" using 2 P(1) by (intro mult_right_mono) simp_all
  also have "\<dots> \<le> (2 * e) * (2 ^ 52 - 1)"
    using P(2) by (intro mult_left_mono) (simp_all add: e_def)
  also have "\<dots> = 1 - 2 * e" by (simp add: e_def)
  finally have "x * P \<le> 1 - 2 * e" .
  moreover have "0 < e" by (simp add: e_def)
  ultimately show False using ex1 by linarith
qed

lemma bit_length_numeral [simp]:
  "bit_length 0 = 0" "bit_length (Suc 0) = 1" "bit_length 1 = 1"
  "bit_length (numeral (num.Bit0 k)) = Suc (bit_length (numeral k))"
  "bit_length (numeral (num.Bit1 k)) = Suc (bit_length (numeral k))"
proof -
  show "bit_length 0 = 0" by (simp add: bit_length.simps)
  show "bit_length (Suc 0) = 1" by (simp add: bit_length.simps[of "Suc 0"] bit_length.simps[of 0])
  then show "bit_length 1 = 1" by simp
  show "bit_length (numeral (num.Bit0 k)) = Suc (bit_length (numeral k))"
    by (subst bit_length.simps) simp
  show "bit_length (numeral (num.Bit1 k)) = Suc (bit_length (numeral k))"
    by (subst bit_length.simps) simp
qed

lemma float_reciprocal_1 [simp]: "float_reciprocal 1 = 1" 
  by (simp add: float_reciprocal_def round_half_even_def Let_def)

lemma float_reciprocal_2 [simp]: "float_reciprocal 2 = 1 / 2"
  by (simp add: float_reciprocal_def round_half_even_def Let_def)

section \<open>Properties of the heap operations\<close>

lemma mset_swap_update:
  assumes "i < length xs" "j < length xs"
  shows "mset (xs[i := xs ! j, j := x]) = mset (xs[i := x])"
proof (cases "i = j")
  case True then show ?thesis by simp
next
  case False
  let ?ys = "xs[i := x]"
  have "mset (?ys[j := ?ys ! i, i := ?ys ! j]) = mset ?ys"
    by (rule mset_swap) (simp_all add: assms)
  moreover have "?ys[j := ?ys ! i, i := ?ys ! j] = xs[i := xs ! j, j := x]"
    using assms False by (simp add: list_eq_iff_nth_eq nth_list_update)
  ultimately show ?thesis by simp
qed

lemma entry_lt_le: "entry_lt x y \<Longrightarrow> fst x \<le> fst y"
  by (auto simp: entry_lt_def split: if_splits)

lemma not_entry_lt_ge: "\<not> entry_lt x y \<Longrightarrow> fst y \<le> fst x"
  by (auto simp: entry_lt_def service_lt_def split: if_splits)

lemma length_siftdown_loop [simp]:
  "length (siftdown_loop heap newitem startpos pos) = length heap"
  by (induction heap newitem startpos pos rule: siftdown_loop.induct)
     (subst siftdown_loop.simps, simp add: Let_def)

lemma mset_siftdown_loop:
  "pos < length heap \<Longrightarrow>
   mset (siftdown_loop heap newitem startpos pos) = mset (heap[pos := newitem])"
proof (induction heap newitem startpos pos rule: siftdown_loop.induct)
  case (1 heap newitem startpos pos)
  show ?case
  proof (cases "pos > startpos \<and> entry_lt newitem (heap ! ((pos - 1) div 2))")
    case True
    then have pp: "(pos - 1) div 2 < length heap" using "1.prems" by simp
    have "mset (siftdown_loop heap newitem startpos pos) =
          mset (siftdown_loop (heap[pos := heap ! ((pos - 1) div 2)]) newitem startpos ((pos - 1) div 2))"
      using True by (subst siftdown_loop.simps) (simp add: Let_def)
    also have "\<dots> = mset (heap[pos := heap ! ((pos - 1) div 2), (pos - 1) div 2 := newitem])"
      using True pp "1.IH"[OF _ refl refl] by simp
    also have "\<dots> = mset (heap[pos := newitem])"
      by (rule mset_swap_update) (use "1.prems" pp in simp_all)
    finally show ?thesis .
  next
    case False
    then show ?thesis by (subst siftdown_loop.simps) (auto simp: Let_def)
  qed
qed

lemma hole_ok_step:
  assumes h: "hole_ok heap newitem pos" and pos: "0 < pos"
    and lt: "fst newitem \<le> fst (heap ! ((pos - 1) div 2))"
  shows "hole_ok (heap[pos := heap ! ((pos - 1) div 2)]) newitem ((pos - 1) div 2)"
proof -
  let ?pp = "(pos - 1) div 2"
  let ?h' = "heap[pos := heap ! ?pp]"
  have len: "pos < length heap" and pp: "?pp < pos" "?pp < length heap"
    using h pos by (auto simp: hole_ok_def)
  have A: "\<And>i. i < length heap \<Longrightarrow> 0 < i \<Longrightarrow> i \<noteq> pos \<Longrightarrow>
          fst ((heap[pos := newitem]) ! ((i - 1) div 2)) \<le> fst ((heap[pos := newitem]) ! i)"
    using h by (auto simp: hole_ok_def)
  have C: "\<And>i. i < length heap \<Longrightarrow> 0 < i \<Longrightarrow> (i - 1) div 2 = pos \<Longrightarrow>
          fst (heap ! ?pp) \<le> fst (heap ! i)"
    using h pos by (auto simp: hole_ok_def)
  have A': "fst ((?h'[?pp := newitem]) ! ((i - 1) div 2)) \<le> fst ((?h'[?pp := newitem]) ! i)"
    if i: "i < length heap" "0 < i" "i \<noteq> ?pp" for i
  proof (cases "i = pos")
    case True
    then show ?thesis using pp len lt by (simp add: nth_list_update)
  next
    case ipos: False
    show ?thesis
    proof (cases "(i - 1) div 2 = pos")
      case True
      then show ?thesis using C[OF i(1,2) True] i ipos pp len by (simp add: nth_list_update)
    next
      case False
      show ?thesis
      proof (cases "(i - 1) div 2 = ?pp")
        case True
        have "fst (heap ! ?pp) \<le> fst (heap ! i)"
          using A[OF i(1,2) ipos] True ipos pp by (simp add: nth_list_update)
        then show ?thesis using True lt i ipos pp len by (simp add: nth_list_update)
      next
        case F2: False
        then show ?thesis using A[OF i(1,2) ipos] False i ipos pp len
          by (simp add: nth_list_update)
      qed
    qed
  qed
  have C': "fst (?h' ! ((?pp - 1) div 2)) \<le> fst (?h' ! i)"
    if i: "i < length heap" "0 < i" "(i - 1) div 2 = ?pp" "0 < ?pp" for i
  proof -
    have g: "fst (heap ! ((?pp - 1) div 2)) \<le> fst (heap ! ?pp)"
    proof -
      have "(?pp - 1) div 2 \<noteq> pos" using pp by linarith
      then show ?thesis using A[of ?pp] pp i(4) by (simp add: nth_list_update)
    qed
    show ?thesis
    proof (cases "i = pos")
      case True
      then show ?thesis using g pp len by (simp add: nth_list_update)
    next
      case False
      have "fst (heap ! ?pp) \<le> fst (heap ! i)"
        using A[OF i(1,2) False] i(3) False pp by (simp add: nth_list_update)
      then show ?thesis using g False pp len by (simp add: nth_list_update)
    qed
  qed
  show ?thesis
    unfolding hole_ok_def using pp A' C' by simp
qed

lemma siftdown_loop_ok:
  "hole_ok heap newitem pos \<Longrightarrow> startpos = 0 \<Longrightarrow>
   heap_ok (siftdown_loop heap newitem startpos pos)"
proof (induction heap newitem startpos pos rule: siftdown_loop.induct)
  case (1 heap newitem startpos pos)
  let ?pp = "(pos - 1) div 2"
  have len: "pos < length heap" using "1.prems" by (simp add: hole_ok_def)
  have A: "\<And>i. i < length heap \<Longrightarrow> 0 < i \<Longrightarrow> i \<noteq> pos \<Longrightarrow>
          fst ((heap[pos := newitem]) ! ((i - 1) div 2)) \<le> fst ((heap[pos := newitem]) ! i)"
    using "1.prems" by (auto simp: hole_ok_def)
  show ?case
  proof (cases "pos > 0")
    case False
    then have "siftdown_loop heap newitem startpos pos = heap[pos := newitem]"
      using "1.prems" by (subst siftdown_loop.simps) simp
    moreover have "heap_ok (heap[pos := newitem])"
      unfolding heap_ok_def using A False by auto
    ultimately show ?thesis by simp
  next
    case True
    show ?thesis
    proof (cases "entry_lt newitem (heap ! ?pp)")
      case lt: True
      have eq: "siftdown_loop heap newitem startpos pos =
            siftdown_loop (heap[pos := heap ! ?pp]) newitem startpos ?pp"
        using True lt "1.prems" by (subst siftdown_loop.simps) (simp add: Let_def)
      have "hole_ok (heap[pos := heap ! ?pp]) newitem ?pp"
        by (rule hole_ok_step[OF "1.prems"(1) True entry_lt_le[OF lt]])
      then show ?thesis
        using "1.IH"[OF _ refl refl lt] True "1.prems" eq by simp
    next
      case nlt: False
      have eq: "siftdown_loop heap newitem startpos pos = heap[pos := newitem]"
        using nlt by (subst siftdown_loop.simps) (simp add: Let_def)
      have "fst ((heap[pos := newitem]) ! ((i - 1) div 2)) \<le> fst ((heap[pos := newitem]) ! i)"
        if "i < length heap" "0 < i" for i
      proof (cases "i = pos")
        case True
        then show ?thesis using not_entry_lt_ge[OF nlt] that len
          by (simp add: nth_list_update)
      next
        case False
        then show ?thesis using A that by simp
      qed
      then show ?thesis unfolding eq heap_ok_def by simp
    qed
  qed
qed

lemma descent_ok_step:
  assumes d: "descent_ok heap pos"
    and c: "c < length heap" "c = 2 * pos + 1 \<or> c = 2 * pos + 2"
    and least: "\<And>i. i < length heap \<Longrightarrow> 0 < i \<Longrightarrow> (i - 1) div 2 = pos \<Longrightarrow>
                  fst (heap ! c) \<le> fst (heap ! i)"
  shows "descent_ok (heap[pos := heap ! c]) c"
proof -
  let ?h' = "heap[pos := heap ! c]"
  have pc: "(c - 1) div 2 = pos" "pos < c" "0 < c" using c by auto
  have len: "pos < length heap" using c pc by simp
  have D: "\<And>i. i < length heap \<Longrightarrow> 0 < i \<Longrightarrow> (i - 1) div 2 \<noteq> pos \<Longrightarrow>
          fst (heap ! ((i - 1) div 2)) \<le> fst (heap ! i)"
    using d by (auto simp: descent_ok_def)
  have G: "\<And>i. i < length heap \<Longrightarrow> 0 < i \<Longrightarrow> (i - 1) div 2 = pos \<Longrightarrow> 0 < pos \<Longrightarrow>
          fst (heap ! ((pos - 1) div 2)) \<le> fst (heap ! i)"
    using d by (auto simp: descent_ok_def)
  have D': "fst (?h' ! ((i - 1) div 2)) \<le> fst (?h' ! i)"
    if i: "i < length heap" "0 < i" "(i - 1) div 2 \<noteq> c" for i
  proof (cases "(i - 1) div 2 = pos")
    case True
    then have "i \<noteq> pos" using i by linarith
    then show ?thesis using least[OF i(1,2) True] True len by (simp add: nth_list_update)
  next
    case False
    show ?thesis
    proof (cases "i = pos")
      case True
      then have "0 < pos" using i by simp
      then have "fst (heap ! ((pos - 1) div 2)) \<le> fst (heap ! c)"
        using G[OF c(1) pc(3) pc(1)] by simp
      moreover have "(pos - 1) div 2 \<noteq> pos" using \<open>0 < pos\<close> by linarith
      ultimately show ?thesis using True len by (simp add: nth_list_update)
    next
      case F2: False
      then show ?thesis using D[OF i(1,2) False] False by (simp add: nth_list_update)
    qed
  qed
  have G': "fst (?h' ! ((c - 1) div 2)) \<le> fst (?h' ! i)"
    if i: "i < length heap" "0 < i" "(i - 1) div 2 = c" for i
  proof -
    have "i \<noteq> pos" using i pc by linarith
    moreover have "(i - 1) div 2 \<noteq> pos" using i pc by simp
    ultimately show ?thesis using D[OF i(1,2)] i(3) pc len by (simp add: nth_list_update)
  qed
  show ?thesis unfolding descent_ok_def using D' G' by simp
qed

lemma siftup_loop_result:
  "descent_ok heap pos \<Longrightarrow> pos < length heap \<Longrightarrow> endpos = length heap \<Longrightarrow>
   siftup_loop heap endpos pos = (h', p') \<Longrightarrow>
   heap_ok h' \<and> p' < length h' \<and> length h' = length heap \<and> length heap \<le> 2 * p' + 1 \<and>
   (\<forall>x. mset (h'[p' := x]) = mset (heap[pos := x]))"
proof (induction heap endpos pos arbitrary: h' p' rule: siftup_loop.induct)
  case (1 heap endpos pos)
  show ?case
  proof (cases "2 * pos + 1 < endpos")
    case False
    have "siftup_loop heap endpos pos = (heap, pos)"
      using False by (subst siftup_loop.simps) (simp add: Let_def)
    then have eq: "h' = heap" "p' = pos"
      using "1.prems"(4) by simp_all
    have "heap_ok heap"
      unfolding heap_ok_def
    proof (intro allI impI)
      fix i assume i: "i < length heap" "0 < i"
      then have "(i - 1) div 2 \<noteq> pos" using False "1.prems"(3) by linarith
      then show "fst (heap ! ((i - 1) div 2)) \<le> fst (heap ! i)"
        using "1.prems"(1) i by (simp add: descent_ok_def)
    qed
    then show ?thesis using eq "1.prems"(2,3) False by simp
  next
    case True
    define c where "c = (if 2 * pos + 1 + 1 < endpos \<and> \<not> entry_lt (heap ! (2 * pos + 1)) (heap ! (2 * pos + 1 + 1))
                          then 2 * pos + 1 + 1 else 2 * pos + 1)"
    have eq: "siftup_loop heap endpos pos = siftup_loop (heap[pos := heap ! c]) endpos c"
      using True by (subst siftup_loop.simps) (simp add: Let_def c_def)
    have c: "c < length heap" "c = 2 * pos + 1 \<or> c = 2 * pos + 2"
      using True "1.prems"(3) by (simp_all add: c_def)
    have least: "fst (heap ! c) \<le> fst (heap ! i)"
      if i: "i < length heap" "0 < i" "(i - 1) div 2 = pos" for i
    proof -
      consider "i = 2 * pos + 1" | "i = 2 * pos + 2" using i by linarith
      then show ?thesis
      proof cases
        case 1
        show ?thesis
        proof (cases "c = i")
          case True then show ?thesis by simp
        next
          case False
          then have "\<not> entry_lt (heap ! (2 * pos + 1)) (heap ! (2 * pos + 1 + 1))" "c = 2 * pos + 1 + 1"
            using 1 by (simp_all add: c_def split: if_splits)
          then show ?thesis using not_entry_lt_ge 1 by simp
        qed
      next
        case 2
        show ?thesis
        proof (cases "c = i")
          case True then show ?thesis by simp
        next
          case False
          then have "entry_lt (heap ! (2 * pos + 1)) (heap ! (2 * pos + 1 + 1))" "c = 2 * pos + 1"
            using 2 i(1) "1.prems"(3) by (simp_all add: c_def split: if_splits)
          then show ?thesis using entry_lt_le 2 by simp
        qed
      qed
    qed
    have d': "descent_ok (heap[pos := heap ! c]) c"
      by (rule descent_ok_step[OF "1.prems"(1) c least])
    have call: "siftup_loop (heap[pos := heap ! c]) endpos c = (h', p')"
      using eq "1.prems"(4) by simp
    have IH: "heap_ok h' \<and> p' < length h' \<and> length h' = length (heap[pos := heap ! c]) \<and>
        length (heap[pos := heap ! c]) \<le> 2 * p' + 1 \<and>
        (\<forall>x. mset (h'[p' := x]) = mset ((heap[pos := heap ! c])[c := x]))"
      using "1.IH"[OF refl True refl refl, folded c_def, OF d' _ _ call] c(1) "1.prems"(3)
      by simp
    have "mset (heap[pos := heap ! c, c := x]) = mset (heap[pos := x])" for x
      by (rule mset_swap_update) (use c "1.prems" in simp_all)
    then show ?thesis using IH by simp
  qed
qed

lemma heap_ok_butlast: "heap_ok h \<Longrightarrow> heap_ok (butlast h)"
  unfolding heap_ok_def
proof (intro allI impI)
  fix i assume h: "\<forall>i<length h. 0 < i \<longrightarrow> fst (h ! ((i - 1) div 2)) \<le> fst (h ! i)"
    and i: "i < length (butlast h)" "0 < i"
  have "(i - 1) div 2 < length (butlast h)" using i by linarith
  then show "fst (butlast h ! ((i - 1) div 2)) \<le> fst (butlast h ! i)"
    using h i by (simp add: nth_butlast)
qed

lemma heap_ok_root_least:
  assumes "heap_ok h" "i < length h"
  shows "fst (h ! 0) \<le> fst (h ! i)"
  using assms(2)
proof (induction i rule: less_induct)
  case (less i)
  show ?case
  proof (cases "i = 0")
    case True then show ?thesis by simp
  next
    case False
    have p: "(i - 1) div 2 < i" using False by linarith
    have "fst (h ! 0) \<le> fst (h ! ((i - 1) div 2))"
      using less.IH[OF p] p less.prems by simp
    also have "\<dots> \<le> fst (h ! i)"
      using assms(1) less.prems False by (simp add: heap_ok_def)
    finally show ?thesis .
  qed
qed

lemma heap_ok_heappush: "heap_ok h \<Longrightarrow> heap_ok (heappush h x)"
proof -
  assume h: "heap_ok h"
  have "hole_ok (h @ [x]) x (length h)"
    unfolding hole_ok_def
  proof (intro conjI allI impI)
    show "length h < length (h @ [x])" by simp
  next
    fix i assume i: "i < length (h @ [x])" "0 < i" "i \<noteq> length h"
    then have il: "i < length h" by simp
    then have "(i - 1) div 2 < length h" by linarith
    then show "fst ((h @ [x])[length h := x] ! ((i - 1) div 2)) \<le> fst ((h @ [x])[length h := x] ! i)"
      using h il i(2) by (simp add: heap_ok_def nth_append)
  next
    fix i assume i: "i < length (h @ [x])" "0 < i" "(i - 1) div 2 = length h"
    then have False by auto
    then show "fst ((h @ [x]) ! ((length h - 1) div 2)) \<le> fst ((h @ [x]) ! i)" ..
  qed
  then show ?thesis
    unfolding heappush_def siftdown_def by (simp add: siftdown_loop_ok)
qed

lemma mset_heappush: "mset (heappush h x) = add_mset x (mset h)"
  unfolding heappush_def siftdown_def
  by (simp add: mset_siftdown_loop)

lemma siftup_root:
  assumes ok: "heap_ok h" and ne: "h \<noteq> []"
  shows "heap_ok (siftup (h[0 := x]) 0) \<and> mset (siftup (h[0 := x]) 0) = mset (h[0 := x])"
proof -
  let ?h = "h[0 := x]"
  obtain h' p' where sl: "siftup_loop ?h (length ?h) 0 = (h', p')" by (cases "siftup_loop ?h (length ?h) 0")
  have d: "descent_ok ?h 0"
    unfolding descent_ok_def
  proof (intro conjI allI impI)
    fix i assume i: "i < length ?h" "0 < i" "(i - 1) div 2 \<noteq> 0"
    then show "fst (?h ! ((i - 1) div 2)) \<le> fst (?h ! i)"
      using ok by (simp add: heap_ok_def)
  qed simp
  have r: "heap_ok h' \<and> p' < length h' \<and> length h' = length ?h \<and> length ?h \<le> 2 * p' + 1 \<and>
   (\<forall>x. mset (h'[p' := x]) = mset (?h[0 := x]))"
    by (rule siftup_loop_result[OF d _ refl sl]) (use ne in simp)
  have hole: "hole_ok (h'[p' := x]) x p'"
    unfolding hole_ok_def
  proof (intro conjI allI impI)
    show "p' < length (h'[p' := x])" using r by simp
  next
    fix i assume i: "i < length (h'[p' := x])" "0 < i" "i \<noteq> p'"
    then have "(i - 1) div 2 \<noteq> p'" using r by simp linarith
    then show "fst (h'[p' := x, p' := x] ! ((i - 1) div 2)) \<le> fst (h'[p' := x, p' := x] ! i)"
      using r i by (simp add: heap_ok_def)
  next
    fix i assume i: "i < length (h'[p' := x])" "0 < i" "(i - 1) div 2 = p'"
    then have False using r by simp linarith
    then show "fst (h'[p' := x] ! ((p' - 1) div 2)) \<le> fst (h'[p' := x] ! i)" ..
  qed
  have x0: "?h ! 0 = x" using ne by simp
  have su: "siftup ?h 0 = siftdown_loop (h'[p' := x]) x 0 p'"
    using sl r x0 unfolding siftup_def siftdown_def by (simp add: Let_def)
  have "mset (siftdown_loop (h'[p' := x]) x 0 p') = mset (h'[p' := x])"
    using r by (simp add: mset_siftdown_loop)
  then show ?thesis
    using su siftdown_loop_ok[OF hole refl] r by simp
qed

lemma heappop_result:
  assumes ok: "heap_ok h" and pop: "heappop h = Inr (x, h')"
  shows "heap_ok h' \<and> mset h = add_mset x (mset h') \<and> (\<forall>y \<in> set h. fst x \<le> fst y)"
proof -
  have ne: "h \<noteq> []" using pop by (auto simp: heappop_def)
  have bl: "h = butlast h @ [last h]" using ne by simp
  show ?thesis
  proof (cases "butlast h = []")
    case True
    then have "h' = []" "x = last h" using pop ne
      by (simp_all add: heappop_def Let_def)
    moreover have "h = [last h]" using bl True by simp
    ultimately have "h' = []" "h = [x]" by simp_all
    then show ?thesis by (simp add: heap_ok_def)
  next
    case False
    then have h': "h' = siftup ((butlast h)[0 := last h]) 0" and xb: "x = butlast h ! 0"
      using pop ne by (simp_all add: heappop_def Let_def)
    have l0: "0 < length (butlast h)" using False by blast
    then have x0: "x = h ! 0" using xb by (simp only: nth_butlast)
    have least: "\<forall>y \<in> set h. fst x \<le> fst y"
    proof
      fix y assume "y \<in> set h"
      then obtain i where "i < length h" "h ! i = y" by (auto simp: in_set_conv_nth)
      then show "fst x \<le> fst y" using heap_ok_root_least[OF ok, of i] x0 by simp
    qed
    have s: "heap_ok h' \<and> mset h' = mset ((butlast h)[0 := last h])"
      unfolding h' by (rule siftup_root[OF heap_ok_butlast[OF ok] False])
    have "mset h = add_mset (last h) (mset (butlast h))"
      by (subst bl) simp
    moreover have "mset ((butlast h)[0 := last h]) = add_mset (last h) (mset (butlast h) - {#x#})"
      using mset_update[OF l0, of "last h"] xb by simp
    moreover have "x \<in># mset (butlast h)" using nth_mem[OF l0] xb by simp
    ultimately show ?thesis using s least by simp
  qed
qed

section \<open>The loop of \<open>job\<close> terminates\<close>

lemma siftup_loop_mset:
  "pos < length heap \<Longrightarrow> endpos = length heap \<Longrightarrow>
   siftup_loop heap endpos pos = (h', p') \<Longrightarrow>
   p' < length h' \<and> length h' = length heap \<and>
   (\<forall>x. mset (h'[p' := x]) = mset (heap[pos := x]))"
proof (induction heap endpos pos arbitrary: h' p' rule: siftup_loop.induct)
  case (1 heap endpos pos)
  show ?case
  proof (cases "2 * pos + 1 < endpos")
    case False
    have "siftup_loop heap endpos pos = (heap, pos)"
      using False by (subst siftup_loop.simps) (simp add: Let_def)
    then show ?thesis using "1.prems" by simp
  next
    case True
    define c where "c = (if 2 * pos + 1 + 1 < endpos \<and> \<not> entry_lt (heap ! (2 * pos + 1)) (heap ! (2 * pos + 1 + 1))
                          then 2 * pos + 1 + 1 else 2 * pos + 1)"
    have eq: "siftup_loop heap endpos pos = siftup_loop (heap[pos := heap ! c]) endpos c"
      using True by (subst siftup_loop.simps) (simp add: Let_def c_def)
    have c: "c < length heap"
      using True "1.prems"(2) by (simp add: c_def)
    have call: "siftup_loop (heap[pos := heap ! c]) endpos c = (h', p')"
      using eq "1.prems"(3) by simp
    have IH: "p' < length h' \<and> length h' = length (heap[pos := heap ! c]) \<and>
        (\<forall>x. mset (h'[p' := x]) = mset ((heap[pos := heap ! c])[c := x]))"
      using "1.IH"[OF refl True refl refl, folded c_def, OF _ _ call] c "1.prems"(2)
      by simp
    have "mset (heap[pos := heap ! c, c := x]) = mset (heap[pos := x])" for x
      by (rule mset_swap_update) (use c "1.prems" in simp_all)
    then show ?thesis using IH by simp
  qed
qed

lemma mset_siftup: "h \<noteq> [] \<Longrightarrow> mset (siftup h 0) = mset h"
proof -
  assume ne: "h \<noteq> []"
  obtain h' p' where sl: "siftup_loop h (length h) 0 = (h', p')"
    by (cases "siftup_loop h (length h) 0")
  have r: "p' < length h' \<and> length h' = length h \<and> (\<forall>x. mset (h'[p' := x]) = mset (h[0 := x]))"
    by (rule siftup_loop_mset[OF _ refl sl]) (use ne in simp)
  have "siftup h 0 = siftdown_loop (h'[p' := h ! 0]) (h ! 0) 0 p'"
    using sl r unfolding siftup_def siftdown_def by (simp add: Let_def)
  moreover have "mset (h'[p' := h ! 0]) = mset (h[0 := h ! 0])" using r by blast
  moreover have "p' < length (h'[p' := h ! 0])" using r by simp
  ultimately show ?thesis by (simp add: mset_siftdown_loop)
qed

lemma mset_heappop:
  assumes pop: "heappop h = Inr (x, h')"
  shows "mset h = add_mset x (mset h')"
proof -
  have ne: "h \<noteq> []" using pop by (auto simp: heappop_def)
  have bl: "h = butlast h @ [last h]" using ne by simp
  have mh: "mset h = add_mset (last h) (mset (butlast h))"
    by (subst bl) simp
  show ?thesis
  proof (cases "butlast h = []")
    case True
    then have "h' = []" "x = last h" using pop ne
      by (simp_all add: heappop_def Let_def)
    then show ?thesis using mh True by simp
  next
    case False
    then have h': "h' = siftup ((butlast h)[0 := last h]) 0" and xb: "x = butlast h ! 0"
      using pop ne by (simp_all add: heappop_def Let_def)
    have l0: "0 < length (butlast h)" using False by blast
    have "mset h' = mset ((butlast h)[0 := last h])"
      unfolding h' by (rule mset_siftup) (use False in simp)
    moreover have "mset ((butlast h)[0 := last h]) = add_mset (last h) (mset (butlast h) - {#x#})"
      using mset_update[OF l0, of "last h"] xb by simp
    moreover have "x \<in># mset (butlast h)" using nth_mem[OF l0] xb by simp
    ultimately show ?thesis using mh by simp
  qed
qed

lemma heappop_Inl: "heappop h = Inl e \<Longrightarrow> h = []"
  by (auto simp: heappop_def Let_def split: if_splits)

lemma heappop_nonempty: "h \<noteq> [] \<Longrightarrow> \<exists>x h'. heappop h = Inr (x, h')"
  by (auto simp: heappop_def Let_def)

lemma length_heappush [simp]: "length (heappush h x) = Suc (length h)"
  using arg_cong[OF mset_heappush[of h x], of size] by simp

lemma set_heappush [simp]: "set (heappush h x) = insert x (set h)"
  using arg_cong[OF mset_heappush[of h x], of set_mset] by simp

lemma heappop_length: "heappop h = Inr (x, h') \<Longrightarrow> length h = Suc (length h')"
  using arg_cong[OF mset_heappop[of h x h'], of size] by simp

lemma heappop_set: "heappop h = Inr (x, h') \<Longrightarrow> set h = insert x (set h')"
  using arg_cong[OF mset_heappop[of h x h'], of set_mset] by simp

lemma length_push_all: "length (foldl push_service h ss) = length h + length ss"
  by (induction ss arbitrary: h) (simp_all add: push_service_def)

lemma set_push_all: "snd ` set (foldl push_service h ss) = snd ` set h \<union> set ss"
  by (induction ss arbitrary: h) (auto simp: push_service_def)

lemma visit_successor_frame:
  assumes "visit_successor a summary t st se = Inr st'"
  shows "number_of_runs st' = number_of_runs st \<and> visited st' = visited st \<and>
    iteration st' = iteration st \<and> services st' = push_service (services st) (fst se) \<and>
    priority (fst se) \<noteq> 0"
proof -
  obtain successor edge where se: "se = (successor, edge)" by (cases se)
  have p: "priority successor \<noteq> 0"
    using assms unfolding se visit_successor_def heap_key_def
    by (auto split: if_splits option.splits sum.splits)
  then have k: "heap_key successor = Inr (float_reciprocal (priority successor))"
    by (simp add: heap_key_def)
  show ?thesis
  proof (cases "tracking_bfs_or_device a")
    case True
    then obtain b where b: "summary t = Some b"
      using assms unfolding se visit_successor_def by (cases "summary t") simp_all
    show ?thesis
      using assms True b k p unfolding se visit_successor_def push_service_def
      by (auto simp: Let_def)
  next
    case False
    show ?thesis
      using assms False k p unfolding se visit_successor_def push_service_def
      by (auto simp: Let_def)
  qed
qed

lemma visit_successors_frame:
  "visit_successors a summary t st ns = Inr st' \<Longrightarrow>
   number_of_runs st' = number_of_runs st \<and> visited st' = visited st \<and>
   iteration st' = iteration st \<and>
   services st' = foldl push_service (services st) (map fst ns) \<and>
   (\<forall>s \<in> fst ` set ns. priority s \<noteq> 0)"
proof (induction ns arbitrary: st)
  case Nil
  then show ?case by simp
next
  case (Cons se ns)
  then obtain st1 where st1: "visit_successor a summary t st se = Inr st1"
    and rest: "visit_successors a summary t st1 ns = Inr st'"
    by (auto split: sum.splits)
  show ?case
    using Cons.IH[OF rest] visit_successor_frame[OF st1] by simp
qed

lemma neighbors_subset:
  "fst ` set (neighbors es s w t) \<subseteq> destination ` set es"
  by (auto simp: neighbors_def destinations_def)

lemma length_neighbors: "length (neighbors es s w t) \<le> length es"
proof -
  have "length (neighbors es s w t) \<le> length (destinations es s)"
    unfolding neighbors_def by simp
  also have "\<dots> \<le> length es" unfolding destinations_def by simp
  finally show ?thesis .
qed

lemma follow_edges_frame:
  assumes "follow_edges a s status summary t st = Inr st'"
  shows "\<exists>ss. number_of_runs st' = number_of_runs st \<and> visited st' = visited st \<and>
   iteration st' = iteration st \<and>
   services st' = foldl push_service (services st) ss \<and>
   set ss \<subseteq> destination ` set (db_edges a) \<and> length ss \<le> length (db_edges a) \<and>
   (\<forall>s \<in> set ss. priority s \<noteq> 0)"
proof -
  let ?ns = "neighbors (db_edges a) s (self_name a) t"
  have "st' = st \<or> visit_successors a summary t st ?ns = Inr st'"
  proof (cases "\<not> tracking_bfs a \<and> t \<noteq> status")
    case True
    then show ?thesis using assms by (simp add: follow_edges_def)
  next
    case False
    show ?thesis
    proof (cases "tracking_bfs a")
      case tb: True
      then obtain b where b: "summary t = Some b"
        using assms False by (cases "summary t") (simp_all add: follow_edges_def)
      show ?thesis
        using assms False tb b by (cases "bucket_truthy b") (simp_all add: follow_edges_def)
    next
      case ntb: False
      then show ?thesis using assms False by (simp add: follow_edges_def)
    qed
  qed
  then show ?thesis
  proof
    assume "st' = st"
    then show ?thesis by (intro exI[of _ "[]"]) simp
  next
    assume 2: "visit_successors a summary t st ?ns = Inr st'"
    have sub: "set (map fst ?ns) \<subseteq> destination ` set (db_edges a)"
      using neighbors_subset[of "db_edges a" s "self_name a" t] by simp
    have len: "length (map fst ?ns) \<le> length (db_edges a)"
      using length_neighbors[of "db_edges a" s "self_name a" t] by simp
    have pr: "\<forall>s \<in> set (map fst ?ns). priority s \<noteq> 0"
      using visit_successors_frame[OF 2] by simp
    show ?thesis
      using visit_successors_frame[OF 2] sub len pr
      by (intro exI[of _ "map fst ?ns"] conjI) blast+
  qed
qed

lemma propagate_frame:
  assumes "propagate a s res st = Inr st'"
  shows "\<exists>ss. number_of_runs st' = number_of_runs st \<and> visited st' = visited st \<and>
   iteration st' = iteration st \<and>
   services st' = foldl push_service (services st) ss \<and>
   set ss \<subseteq> destination ` set (db_edges a) \<and> length ss \<le> 2 * length (db_edges a) \<and>
   (\<forall>s \<in> set ss. priority s \<noteq> 0)"
proof -
  from assms obtain ok where ok: "res_success res = Some ok"
    by (cases "res_success res") (simp_all add: propagate_def)
  define status where "status = (if ok then ''success'' else ''failure'')"
  define summary where "summary = (case res_summary res of None \<Rightarrow> Map.empty | Some m \<Rightarrow> m)"
  define st1 where "st1 = (if \<not> tracking_bfs a \<and> device a = None
                     then st\<lparr>state_writes := state_writes st @
                            [WriteState (ProgressServicePath status) (IntValue 1)
                               (Some ''increment'')]\<rparr>
                     else st)"
  have st1: "number_of_runs st1 = number_of_runs st" "visited st1 = visited st"
      "iteration st1 = iteration st" "services st1 = services st"
    by (simp_all add: st1_def)
  have "(case follow_edges a s status summary ''success'' st1 of
               Inl e \<Rightarrow> Inl e
             | Inr st2 \<Rightarrow> follow_edges a s status summary ''failure'' st2) = Inr st'"
    using assms unfolding propagate_def ok status_def summary_def st1_def
    by (simp only: option.case Let_def)
  then obtain st2 where f1: "follow_edges a s status summary ''success'' st1 = Inr st2"
    and f2: "follow_edges a s status summary ''failure'' st2 = Inr st'"
    by (cases "follow_edges a s status summary ''success'' st1") simp_all
  from follow_edges_frame[OF f1] obtain ss1 where 1:
    "number_of_runs st2 = number_of_runs st1" "visited st2 = visited st1"
    "iteration st2 = iteration st1" "services st2 = foldl push_service (services st1) ss1"
    "set ss1 \<subseteq> destination ` set (db_edges a)" "length ss1 \<le> length (db_edges a)"
    "\<forall>s \<in> set ss1. priority s \<noteq> 0" by blast
  from follow_edges_frame[OF f2] obtain ss2 where 2:
    "number_of_runs st' = number_of_runs st2" "visited st' = visited st2"
    "iteration st' = iteration st2" "services st' = foldl push_service (services st2) ss2"
    "set ss2 \<subseteq> destination ` set (db_edges a)" "length ss2 \<le> length (db_edges a)"
    "\<forall>s \<in> set ss2. priority s \<noteq> 0" by blast
  show ?thesis
  proof (intro exI[of _ "ss1 @ ss2"] conjI)
    show "services st' = foldl push_service (services st) (ss1 @ ss2)"
      using st1 1 2 by simp
    show "set (ss1 @ ss2) \<subseteq> destination ` set (db_edges a)" using 1 2 by simp
    show "length (ss1 @ ss2) \<le> 2 * length (db_edges a)" using 1 2 by simp
    show "\<forall>s \<in> set (ss1 @ ss2). priority s \<noteq> 0" using 1 2 by auto
  qed (simp_all add: st1 1 2)
qed

lemma loop_body_frame:
  assumes "loop_body a st = Inr st'"
  shows "\<exists>x h' ss. heappop (services st) = Inr (x, h') \<and>
     services st' = foldl push_service h' ss \<and>
     set ss \<subseteq> destination ` set (db_edges a) \<and> length ss \<le> 2 * length (db_edges a) \<and>
     (\<forall>s \<in> set ss. priority s \<noteq> 0) \<and>
     iteration st' = Suc (iteration st) \<and>
     ((number_of_runs st' = number_of_runs st \<and> visited st' = visited st \<and> ss = [] \<and>
       maximum_runs (snd x) \<le> number_of_runs st (name (snd x))) \<or>
      (number_of_runs st (name (snd x)) < maximum_runs (snd x) \<and>
       visited st' = insert (service_id (snd x)) (visited st) \<and>
       number_of_runs st' = (number_of_runs st)
          (name (snd x) := number_of_runs st (name (snd x)) + 1)))"
proof -
  from assms obtain x h' where pop: "heappop (services st) = Inr (x, h')"
    by (auto simp: loop_body_def split: sum.splits)
  define st1 where "st1 = st\<lparr>services := h', iteration := Suc (iteration st)\<rparr>"
  define st2 where "st2 = st1\<lparr>number_of_runs := (number_of_runs st1)
                                 (name (snd x) := number_of_runs st1 (name (snd x)) + 1),
                               visited := insert (service_id (snd x)) (visited st1)\<rparr>"
  show ?thesis
  proof (cases "maximum_runs (snd x) \<le> number_of_runs st (name (snd x))")
    case True
    then have "st' = st1" using assms pop by (simp add: loop_body_def Let_def st1_def)
    then show ?thesis using pop True
      by (intro exI[of _ x] exI[of _ h'] exI[of _ "[]"]) (simp add: st1_def)
  next
    case False
    have lb: "loop_body a st =
        (if is_skipped a (snd x) then propagate a (snd x) (skipped_results a st2 (snd x)) st2
         else (case runner_results a st (snd x) of None \<Rightarrow> Inr st2
               | Some res \<Rightarrow> propagate a (snd x) res st2))"
      using False unfolding loop_body_def pop st2_def st1_def
      by (simp add: Let_def split: option.splits)
    have "st' = st2 \<or> (\<exists>res. propagate a (snd x) res st2 = Inr st')"
    proof (cases "is_skipped a (snd x)")
      case True
      then show ?thesis using assms lb by auto
    next
      case ns: False
      then show ?thesis using assms lb
        by (cases "runner_results a st (snd x)") auto
    qed
    then consider "st' = st2" | res where "propagate a (snd x) res st2 = Inr st'"
      by blast
    then show ?thesis
    proof cases
      case 1
      then show ?thesis using pop False
        by (intro exI[of _ x] exI[of _ h'] exI[of _ "[]"]) (simp add: st1_def st2_def)
    next
      case 2
      from propagate_frame[OF 2] obtain ss where
        "number_of_runs st' = number_of_runs st2" "visited st' = visited st2"
        "iteration st' = iteration st2" "services st' = foldl push_service (services st2) ss"
        "set ss \<subseteq> destination ` set (db_edges a)" "length ss \<le> 2 * length (db_edges a)"
        "\<forall>s \<in> set ss. priority s \<noteq> 0" by blast
      then show ?thesis using pop False
        by (intro exI[of _ x] exI[of _ h'] exI[of _ ss]) (simp add: st1_def st2_def)
    qed
  qed
qed

lemma finite_pending_services [simp]: "finite (pending_services a st)"
  by (simp add: pending_services_def)

lemma loop_measure_decreases:
  assumes "loop_body a st = Inr st'"
  shows "loop_measure a st' < loop_measure a st"
proof -
  from loop_body_frame[OF assms] obtain x h' ss where
    pop: "heappop (services st) = Inr (x, h')"
    and sv: "services st' = foldl push_service h' ss"
    and ss: "set ss \<subseteq> destination ` set (db_edges a)" "length ss \<le> 2 * length (db_edges a)"
    and alt: "(number_of_runs st' = number_of_runs st \<and> visited st' = visited st \<and> ss = [] \<and>
       maximum_runs (snd x) \<le> number_of_runs st (name (snd x))) \<or>
      (number_of_runs st (name (snd x)) < maximum_runs (snd x) \<and>
       visited st' = insert (service_id (snd x)) (visited st) \<and>
       number_of_runs st' = (number_of_runs st)
          (name (snd x) := number_of_runs st (name (snd x)) + 1))"
    by blast
  let ?K = "2 * length (db_edges a) + 1"
  let ?f = "\<lambda>s. nat (maximum_runs s - number_of_runs st (name s))"
  let ?f' = "\<lambda>s. nat (maximum_runs s - number_of_runs st' (name s))"
  have len: "length (services st) = Suc (length h')" by (rule heappop_length[OF pop])
  have len': "length (services st') = length h' + length ss"
    by (simp add: sv length_push_all)
  have xin: "snd x \<in> pending_services a st"
    using heappop_set[OF pop] by (simp add: pending_services_def)
  have sub: "pending_services a st' \<subseteq> pending_services a st"
    using heappop_set[OF pop] ss(1) by (auto simp: pending_services_def sv set_push_all)
  have le1: "runs_left a st' \<le> sum ?f' (pending_services a st)"
    unfolding runs_left_def by (rule sum_mono2[OF _ sub]) simp_all
  from alt show ?thesis
  proof
    assume c: "number_of_runs st' = number_of_runs st \<and> visited st' = visited st \<and> ss = [] \<and>
       maximum_runs (snd x) \<le> number_of_runs st (name (snd x))"
    then have "runs_left a st' \<le> runs_left a st"
      using le1 by (simp add: runs_left_def)
    then have "?K * runs_left a st' \<le> ?K * runs_left a st"
      by (rule mult_le_mono2)
    then show ?thesis
      using c len len' unfolding loop_measure_def by simp
  next
    assume d: "number_of_runs st (name (snd x)) < maximum_runs (snd x) \<and>
       visited st' = insert (service_id (snd x)) (visited st) \<and>
       number_of_runs st' = (number_of_runs st)
          (name (snd x) := number_of_runs st (name (snd x)) + 1)"
    have mono: "\<forall>s \<in> pending_services a st. ?f' s \<le> ?f s"
      using d by auto
    have strict: "\<exists>s \<in> pending_services a st. ?f' s < ?f s"
      using d xin by (intro bexI[of _ "snd x"]) auto
    have "sum ?f' (pending_services a st) < sum ?f (pending_services a st)"
      by (rule sum_strict_mono_ex1[OF finite_pending_services mono strict])
    then have "runs_left a st' + 1 \<le> runs_left a st"
      using le1 by (simp add: runs_left_def)
    then have "?K * (runs_left a st' + 1) \<le> ?K * runs_left a st"
      by (rule mult_le_mono2)
    then have "?K * runs_left a st' + ?K \<le> ?K * runs_left a st"
      by (simp only: add_mult_distrib2 mult_1_right nat_mult_1_right)
    then show ?thesis
      using ss(2) len len' unfolding loop_measure_def by linarith
  qed
qed

termination job_loop
  by (relation "measure (\<lambda>(a, st). loop_measure a st)") (auto simp: loop_measure_decreases)

declare job_loop.simps [simp del]

lemma job_iter_loop:
  "job_iter a n st = Some st' \<Longrightarrow> job_loop a st = job_loop a st'"
proof (induction n arbitrary: st)
  case 0
  then show ?case by simp
next
  case (Suc n)
  then obtain st1 where b: "loop_body a st = Inr st1" and ne: "services st \<noteq> []"
    and ns: "\<not> stop (run a) (iteration st)" and r: "job_iter a n st1 = Some st'"
    by (auto split: if_splits sum.splits)
  have "job_loop a st = job_loop a st1"
    using b ne ns by (subst job_loop.simps) simp
  then show ?case using Suc.IH[OF r] by simp
qed

section \<open>Properties of \<open>job\<close>\<close>

lemma seed_frame:
  "seed a st ss = Inr st' \<Longrightarrow>
   number_of_runs st' = number_of_runs st \<and> visited st' = visited st \<and>
   iteration st' = iteration st \<and> state_writes st' = state_writes st \<and>
   services st' = foldl push_service (services st) ss \<and> (\<forall>s \<in> set ss. priority s \<noteq> 0)"
proof (induction ss arbitrary: st)
  case Nil
  then show ?case by simp
next
  case (Cons s ss)
  have p: "priority s \<noteq> 0"
    using Cons.prems by (auto simp: heap_key_def Let_def split: if_splits)
  then have k: "heap_key s = Inr (float_reciprocal (priority s))" by (simp add: heap_key_def)
  define st1 where "st1 = st\<lparr>targets := (targets st)
                   (name s := targets st (name s) \<union> set (start_targets a)),
                services := heappush (services st) (float_reciprocal (priority s), s)\<rparr>"
  have "seed a st1 ss = Inr st'"
    using Cons.prems k by (simp add: Let_def st1_def)
  from Cons.IH[OF this] show ?case using p by (simp add: st1_def push_service_def)
qed

lemma job_init_frame:
  assumes "job_init a = Inr st0"
  shows "number_of_runs st0 = (\<lambda>_. 0)" "visited st0 = {}" "iteration st0 = 0"
    "state_writes st0 = []"
    "services st0 = foldl push_service []
       (if start_services (run a) = [] then [db_start a] else start_services (run a))"
  using seed_frame[OF assms[unfolded job_init_def]] by (simp_all add: empty_state_def)

lemma job_iter_iteration:
  "job_iter a n st = Some st' \<Longrightarrow> iteration st' = iteration st + n"
proof (induction n arbitrary: st)
  case 0
  then show ?case by simp
next
  case (Suc n)
  then obtain st1 where b: "loop_body a st = Inr st1" and r: "job_iter a n st1 = Some st'"
    by (auto split: if_splits sum.splits)
  from loop_body_frame[OF b] have "iteration st1 = Suc (iteration st)" by blast
  then show ?case using Suc.IH[OF r] by simp
qed

lemma loop_body_runs_mono:
  assumes "loop_body a st = Inr st'"
  shows "number_of_runs st k \<le> number_of_runs st' k"
  using loop_body_frame[OF assms] by auto

lemma dispatched_loop_body:
  assumes "dispatched a st = Some s" and "loop_body a st = Inr st'"
  shows "number_of_runs st (name s) < maximum_runs s \<and>
         number_of_runs st' (name s) = number_of_runs st (name s) + 1"
proof -
  from loop_body_frame[OF assms(2)] obtain x h' where
    pop: "heappop (services st) = Inr (x, h')"
    and alt: "(number_of_runs st' = number_of_runs st \<and>
       maximum_runs (snd x) \<le> number_of_runs st (name (snd x))) \<or>
      (number_of_runs st (name (snd x)) < maximum_runs (snd x) \<and>
       number_of_runs st' = (number_of_runs st)
          (name (snd x) := number_of_runs st (name (snd x)) + 1))"
    by blast
  have "s = snd x \<and> number_of_runs st (name (snd x)) < maximum_runs (snd x)"
    using assms(1) pop by (auto simp: dispatched_def split: if_splits)
  then show ?thesis using alt by auto
qed

lemma dispatched_cap:
  "dispatched a st = Some s \<Longrightarrow> number_of_runs st (name s) < maximum_runs s"
  by (auto simp: dispatched_def split: if_splits sum.splits)

lemma dispatch_count_bound:
  "0 < dispatch_count a s n st \<Longrightarrow>
   number_of_runs st (name s) + int (dispatch_count a s n st) \<le> maximum_runs s"
proof (induction n arbitrary: st)
  case 0
  then show ?case by simp
next
  case (Suc n)
  show ?case
  proof (cases "services st = [] \<or> stop (run a) (iteration st)")
    case True
    then have "dispatched a st = None" by (simp add: dispatched_def)
    then show ?thesis using Suc.prems True by simp
  next
    case False
    show ?thesis
    proof (cases "loop_body a st")
      case (Inl e)
      then have c: "dispatch_count a s (Suc n) st = (if dispatched a st = Some s then 1 else 0)"
        using False by simp
      then have "dispatched a st = Some s" using Suc.prems by (simp split: if_splits)
      then show ?thesis using c dispatched_cap[of a st s] by simp
    next
      case (Inr st')
      then have c: "dispatch_count a s (Suc n) st =
          (if dispatched a st = Some s then 1 else 0) + dispatch_count a s n st'"
        using False by simp
      show ?thesis
      proof (cases "dispatched a st = Some s")
        case True
        note d = dispatched_loop_body[OF True Inr]
        show ?thesis
        proof (cases "0 < dispatch_count a s n st'")
          case True
          from Suc.IH[OF this] show ?thesis using c d by simp
        next
          case False
          then show ?thesis using c d by simp
        qed
      next
        case False
        then have "0 < dispatch_count a s n st'" using c Suc.prems by simp
        from Suc.IH[OF this] show ?thesis
          using c False loop_body_runs_mono[OF Inr, of "name s"] by simp
      qed
    qed
  qed
qed

lemma job_loop_result:
  "job_loop a st = Inr (r, st') \<Longrightarrow>
   (services st' = [] \<and> r = final_results a st') \<or>
   (services st' \<noteq> [] \<and> stop (run a) (iteration st') \<and> r = aborted a)"
proof (induction a st rule: job_loop.induct)
  case (1 a st)
  show ?case
  proof (cases "services st = []")
    case True
    then show ?thesis using "1.prems" by (subst (asm) job_loop.simps) auto
  next
    case ne: False
    show ?thesis
    proof (cases "stop (run a) (iteration st)")
      case True
      then show ?thesis using "1.prems" ne by (subst (asm) job_loop.simps) auto
    next
      case False
      then obtain st1 where b: "loop_body a st = Inr st1" and l: "job_loop a st1 = Inr (r, st')"
        using "1.prems" ne by (subst (asm) job_loop.simps) (auto split: sum.splits)
      show ?thesis by (rule "1.IH"[OF ne False b l])
    qed
  qed
qed

lemma entries_ok_push:
  "entries_ok h \<Longrightarrow> priority s \<noteq> 0 \<Longrightarrow> entries_ok (push_service h s)"
  by (simp add: entries_ok_def push_service_def)

lemma heap_ok_push_all:
  "heap_ok h \<Longrightarrow> heap_ok (foldl push_service h ss)"
  by (induction ss arbitrary: h) (simp_all add: push_service_def heap_ok_heappush)

lemma entries_ok_push_all:
  "entries_ok h \<Longrightarrow> \<forall>s \<in> set ss. priority s \<noteq> 0 \<Longrightarrow> entries_ok (foldl push_service h ss)"
  by (induction ss arbitrary: h) (simp_all add: entries_ok_push)

lemma entries_ok_heappop:
  "entries_ok h \<Longrightarrow> heappop h = Inr (x, h') \<Longrightarrow> entries_ok h'"
  using heappop_set[of h x h'] by (auto simp: entries_ok_def)

lemma loop_body_heap_inv:
  assumes "loop_body a st = Inr st'" and "heap_ok (services st)" and "entries_ok (services st)"
  shows "heap_ok (services st') \<and> entries_ok (services st')"
proof -
  from loop_body_frame[OF assms(1)] obtain x h' ss where
    pop: "heappop (services st) = Inr (x, h')"
    and sv: "services st' = foldl push_service h' ss"
    and pr: "\<forall>s \<in> set ss. priority s \<noteq> 0"
    by blast
  have "heap_ok h'" using heappop_result[OF assms(2) pop] by simp
  moreover have "entries_ok h'" by (rule entries_ok_heappop[OF assms(3) pop])
  ultimately show ?thesis
    unfolding sv using pr by (simp add: heap_ok_push_all entries_ok_push_all)
qed

lemma job_iter_heap_inv:
  "job_iter a n st = Some st' \<Longrightarrow> heap_ok (services st) \<Longrightarrow> entries_ok (services st) \<Longrightarrow>
   heap_ok (services st') \<and> entries_ok (services st')"
proof (induction n arbitrary: st)
  case 0
  then show ?case by simp
next
  case (Suc n)
  then obtain st1 where b: "loop_body a st = Inr st1" and r: "job_iter a n st1 = Some st'"
    by (auto split: if_splits sum.splits)
  from loop_body_heap_inv[OF b Suc.prems(2,3)] Suc.IH[OF r] show ?case by simp
qed

lemma job_init_heap_inv:
  assumes "job_init a = Inr st0"
  shows "heap_ok (services st0) \<and> entries_ok (services st0)"
proof -
  have "heap_ok []" "entries_ok []" by (simp_all add: heap_ok_def entries_ok_def)
  then show ?thesis
    using seed_frame[OF assms[unfolded job_init_def]]
    by (simp add: empty_state_def heap_ok_push_all entries_ok_push_all)
qed

lemma seed_zero_priority:
  "\<exists>s \<in> set ss. priority s = 0 \<Longrightarrow> seed a st ss = Inl ZeroDivisionError"
proof (induction ss arbitrary: st)
  case Nil
  then show ?case by simp
next
  case (Cons s ss)
  show ?case
  proof (cases "priority s = 0")
    case True
    then show ?thesis by (simp add: heap_key_def Let_def)
  next
    case False
    then have "\<exists>s \<in> set ss. priority s = 0" using Cons.prems by auto
    from Cons.IH[OF this] show ?thesis using False by (simp add: heap_key_def Let_def)
  qed
qed

lemma dispatched_loop_body_eq:
  assumes "dispatched a st = Some s"
  shows "\<exists>k h'. heappop (services st) = Inr ((k, s), h') \<and>
     number_of_runs st (name s) < maximum_runs s \<and>
     services st \<noteq> [] \<and> \<not> stop (run a) (iteration st) \<and>
     loop_body a st =
       (let st2 = st\<lparr>services := h', iteration := Suc (iteration st),
                     number_of_runs := (number_of_runs st)(name s := number_of_runs st (name s) + 1),
                     visited := insert (service_id s) (visited st)\<rparr>
        in if is_skipped a s then propagate a s (skipped_results a st2 s) st2
           else (case runner_results a st s of None \<Rightarrow> Inr st2
                 | Some res \<Rightarrow> propagate a s res st2))"
proof -
  from assms have ne: "services st \<noteq> []" and ns: "\<not> stop (run a) (iteration st)"
    by (auto simp: dispatched_def split: if_splits)
  from heappop_nonempty[OF ne] obtain x h' where pop: "heappop (services st) = Inr (x, h')"
    by blast
  have s: "s = snd x" and cap: "number_of_runs st (name (snd x)) < maximum_runs (snd x)"
    using assms pop ne ns by (auto simp: dispatched_def split: if_splits)
  have x: "x = (fst x, s)" using s by simp
  show ?thesis
    apply (rule exI[of _ "fst x"], rule exI[of _ h'])
    using pop cap ne ns s unfolding loop_body_def
    by (simp add: Let_def split: option.splits)
qed

lemma tracking_bfs_runner [simp]: "tracking_bfs (a\<lparr>runner := r\<rparr>) = tracking_bfs a"
  by (simp add: tracking_bfs_def)

lemma tracking_bfs_or_device_runner [simp]:
  "tracking_bfs_or_device (a\<lparr>runner := r\<rparr>) = tracking_bfs_or_device a"
  by (simp add: tracking_bfs_or_device_def)

lemma visit_successor_runner [simp]:
  "visit_successor (a\<lparr>runner := r\<rparr>) summary t st se = visit_successor a summary t st se"
  unfolding visit_successor_def tracking_bfs_or_device_runner ..

lemma visit_successors_runner [simp]:
  "visit_successors (a\<lparr>runner := r\<rparr>) summary t st ns = visit_successors a summary t st ns"
  by (induction ns arbitrary: st) (simp_all split: sum.splits)

lemma job_args_runner_fields [simp]:
  "db_edges (a\<lparr>runner := r\<rparr>) = db_edges a" "self_name (a\<lparr>runner := r\<rparr>) = self_name a"
  "device (a\<lparr>runner := r\<rparr>) = device a"
  by simp_all

lemma follow_edges_runner [simp]:
  "follow_edges (a\<lparr>runner := r\<rparr>) s status summary t st = follow_edges a s status summary t st"
  unfolding follow_edges_def tracking_bfs_runner visit_successors_runner job_args_runner_fields ..

lemma propagate_runner [simp]:
  "propagate (a\<lparr>runner := r\<rparr>) s res st = propagate a s res st"
  unfolding propagate_def tracking_bfs_runner follow_edges_runner job_args_runner_fields ..

lemma dispatched_runner [simp]:
  "dispatched (a\<lparr>runner := r\<rparr>) st = dispatched a st"
  by (simp add: dispatched_def)

lemma visit_successors_tracking:
  assumes "tracking_bfs_or_device a" and "summary t = Some b"
  shows "\<forall>se \<in> set ns. priority (fst se) \<noteq> 0 \<Longrightarrow>
    visit_successors a summary t st ns =
      Inr (st\<lparr>targets := (\<lambda>n. targets st n \<union> (if n \<in> name ` fst ` set ns then bucket_set b else {})),
              services := foldl push_service (services st) (map fst ns),
              state_writes := state_writes st @ map (edge_increment b) ns\<rparr>)"
proof (induction ns arbitrary: st)
  case Nil
  then show ?case by simp
next
  case (Cons se ns)
  obtain successor e where se: "se = (successor, e)" by (cases se)
  have p: "priority successor \<noteq> 0" using Cons.prems se by simp
  define st1 where "st1 = st\<lparr>targets := (targets st)
        (name successor := targets st (name successor) \<union> bucket_set b),
      services := push_service (services st) successor,
      state_writes := state_writes st @ [edge_increment b se]\<rparr>"
  have v: "visit_successor a summary t st se = Inr st1"
    using assms p unfolding se visit_successor_def
    by (simp add: heap_key_def Let_def st1_def push_service_def edge_increment_def se)
  have rest: "\<forall>se \<in> set ns. priority (fst se) \<noteq> 0" using Cons.prems by simp
  have t: "(\<lambda>n. targets st1 n \<union> (if n \<in> name ` fst ` set ns then bucket_set b else {})) =
        (\<lambda>n. targets st n \<union> (if n \<in> name ` fst ` set (se # ns) then bucket_set b else {}))"
    by (auto simp: st1_def se fun_eq_iff)
  show ?case
    using v Cons.IH[OF rest, of st1] unfolding t
    by (simp add: st1_def se)
qed

lemma follow_edges_tracking_bfs:
  assumes "tracking_bfs a" and "summary t = Some b"
    and "\<forall>se \<in> set (taken_edges a s summary t). priority (fst se) \<noteq> 0"
  shows "follow_edges a s status summary t st =
      Inr (st\<lparr>targets := (\<lambda>n. targets st n \<union>
                  (if n \<in> name ` fst ` set (taken_edges a s summary t) then bucket_set b else {})),
              services := foldl push_service (services st) (map fst (taken_edges a s summary t)),
              state_writes := state_writes st @ map (edge_increment b) (taken_edges a s summary t)\<rparr>)"
proof (cases "bucket_truthy b")
  case True
  have tb: "tracking_bfs_or_device a" using assms(1) by (simp add: tracking_bfs_or_device_def)
  have te: "taken_edges a s summary t = neighbors (db_edges a) s (self_name a) t"
    using True assms(2) by (simp add: taken_edges_def)
  show ?thesis
    using visit_successors_tracking[where a = a and summary = summary and t = t and b = b
        and ns = "neighbors (db_edges a) s (self_name a) t" and st = st]
      tb assms True unfolding te by (simp add: follow_edges_def)
next
  case False
  then have te: "taken_edges a s summary t = []"
    using assms(2) by (simp add: taken_edges_def)
  show ?thesis using False assms(1,2) unfolding te by (simp add: follow_edges_def)
qed

lemma visit_successor_targets:
  assumes "visit_successor a summary t st se = Inr st'"
    and "\<forall>b. summary t = Some b \<longrightarrow> bucket_set b \<subseteq> D"
  shows "targets st n \<subseteq> targets st' n \<and> targets st' n \<subseteq> targets st n \<union> D"
proof -
  obtain successor e where se: "se = (successor, e)" by (cases se)
  have p: "priority successor \<noteq> 0"
    using visit_successor_frame[OF assms(1)] by (simp add: se)
  then have k: "heap_key successor = Inr (float_reciprocal (priority successor))"
    by (simp add: heap_key_def)
  show ?thesis
  proof (cases "tracking_bfs_or_device a")
    case True
    then obtain b where b: "summary t = Some b"
      using assms(1) unfolding se visit_successor_def by (cases "summary t") simp_all
    have "targets st' = (targets st)(name successor := targets st (name successor) \<union> bucket_set b)"
      using assms(1) True b k unfolding se visit_successor_def by (auto simp: Let_def)
    then show ?thesis using assms(2) b by auto
  next
    case False
    have "targets st' = targets st"
      using assms(1) False k unfolding se visit_successor_def by (auto simp: Let_def)
    then show ?thesis by simp
  qed
qed

lemma visit_successors_targets:
  "visit_successors a summary t st ns = Inr st' \<Longrightarrow>
   \<forall>b. summary t = Some b \<longrightarrow> bucket_set b \<subseteq> D \<Longrightarrow>
   targets st n \<subseteq> targets st' n \<and> targets st' n \<subseteq> targets st n \<union> D"
proof (induction ns arbitrary: st)
  case Nil
  then show ?case by simp
next
  case (Cons se ns)
  then obtain st1 where st1: "visit_successor a summary t st se = Inr st1"
    and rest: "visit_successors a summary t st1 ns = Inr st'"
    by (auto split: sum.splits)
  show ?case
    using Cons.IH[OF rest Cons.prems(2)]
      visit_successor_targets[where D = D and n = n, OF st1 Cons.prems(2)]
    by blast
qed

lemma follow_edges_targets:
  assumes "follow_edges a s status summary t st = Inr st'"
    and "\<forall>b. summary t = Some b \<longrightarrow> bucket_set b \<subseteq> D"
  shows "targets st n \<subseteq> targets st' n \<and> targets st' n \<subseteq> targets st n \<union> D"
proof -
  let ?ns = "neighbors (db_edges a) s (self_name a) t"
  have "st' = st \<or> visit_successors a summary t st ?ns = Inr st'"
  proof (cases "\<not> tracking_bfs a \<and> t \<noteq> status")
    case True
    then show ?thesis using assms(1) by (simp add: follow_edges_def)
  next
    case False
    show ?thesis
    proof (cases "tracking_bfs a")
      case tb: True
      then obtain b where b: "summary t = Some b"
        using assms(1) False by (cases "summary t") (simp_all add: follow_edges_def)
      show ?thesis
        using assms(1) False tb b by (cases "bucket_truthy b") (simp_all add: follow_edges_def)
    next
      case ntb: False
      then show ?thesis using assms(1) False by (simp add: follow_edges_def)
    qed
  qed
  then show ?thesis
    using visit_successors_targets[where D = D and n = n and st = st and st' = st'
        and a = a and ns = ?ns and summary = summary and t = t] assms(2)
    by auto
qed

lemma propagate_targets:
  assumes "propagate a s res st = Inr st'"
    and "\<forall>m t b. res_summary res = Some m \<longrightarrow> m t = Some b \<longrightarrow> bucket_set b \<subseteq> D"
  shows "targets st n \<subseteq> targets st' n \<and> targets st' n \<subseteq> targets st n \<union> D"
proof -
  from assms(1) obtain ok where ok: "res_success res = Some ok"
    by (cases "res_success res") (simp_all add: propagate_def)
  define status where "status = (if ok then ''success'' else ''failure'')"
  define summary where "summary = (case res_summary res of None \<Rightarrow> Map.empty | Some m \<Rightarrow> m)"
  define st1 where "st1 = (if \<not> tracking_bfs a \<and> device a = None
                     then st\<lparr>state_writes := state_writes st @
                            [WriteState (ProgressServicePath status) (IntValue 1)
                               (Some ''increment'')]\<rparr>
                     else st)"
  have st1: "targets st1 = targets st" by (simp add: st1_def)
  have "(case follow_edges a s status summary ''success'' st1 of
               Inl e \<Rightarrow> Inl e
             | Inr st2 \<Rightarrow> follow_edges a s status summary ''failure'' st2) = Inr st'"
    using assms(1) unfolding propagate_def ok status_def summary_def st1_def
    by (simp only: option.case Let_def)
  then obtain st2 where f1: "follow_edges a s status summary ''success'' st1 = Inr st2"
    and f2: "follow_edges a s status summary ''failure'' st2 = Inr st'"
    by (cases "follow_edges a s status summary ''success'' st1") simp_all
  have b: "\<forall>b. summary t = Some b \<longrightarrow> bucket_set b \<subseteq> D" for t
    using assms(2) by (cases "res_summary res") (auto simp: summary_def)
  show ?thesis
    using follow_edges_targets[where D = D and n = n, OF f1 b]
      follow_edges_targets[where D = D and n = n, OF f2 b] st1 by auto
qed

lemma loop_body_targets:
  assumes "loop_body a st = Inr st'" and "tracking_bfs_or_device a"
    and "runner_reports_given a" and "\<forall>n. targets st n \<subseteq> D"
  shows "targets st n \<subseteq> targets st' n \<and> targets st' n \<subseteq> D"
proof -
  from assms(1) obtain x h' where pop: "heappop (services st) = Inr (x, h')"
    by (cases "heappop (services st)") (auto simp: loop_body_def)
  define s where "s = snd x"
  define st1 where "st1 = st\<lparr>services := h', iteration := Suc (iteration st)\<rparr>"
  define st2 where "st2 = st1\<lparr>number_of_runs := (number_of_runs st1)
                                 (name s := number_of_runs st1 (name s) + 1),
                               visited := insert (service_id s) (visited st1)\<rparr>"
  have t2: "targets st2 = targets st" by (simp add: st2_def st1_def)
  have lb: "(if number_of_runs st1 (name s) \<ge> maximum_runs s then Inr st1
             else if is_skipped a s
                   then propagate a s (skipped_results a st2 s) st2
                   else (case runner_results a st s of
                           None \<Rightarrow> Inr st2
                         | Some res \<Rightarrow> propagate a s res st2)) = Inr st'"
    using assms(1) pop unfolding loop_body_def s_def st1_def st2_def
    by (simp only: sum.case prod.case Let_def)
  have bound: "targets st n \<subseteq> D" using assms(4) by blast
  show ?thesis
  proof (cases "number_of_runs st1 (name s) \<ge> maximum_runs s")
    case True
    then have "st' = st1" using lb by simp
    then show ?thesis using bound by (simp add: st1_def)
  next
    case cap: False
    show ?thesis
    proof (cases "is_skipped a s")
      case True
      then have p: "propagate a s (skipped_results a st2 s) st2 = Inr st'"
        using lb cap by simp
      have b: "\<forall>m t b. res_summary (skipped_results a st2 s) = Some m \<longrightarrow> m t = Some b \<longrightarrow>
                 bucket_set b \<subseteq> D"
        using assms(2,4) by (auto simp: skipped_results_def t2 split: if_splits)
      from propagate_targets[where n = n, OF p b] show ?thesis using bound by (auto simp: t2)
    next
      case ns: False
      show ?thesis
      proof (cases "runner_results a st s")
        case None
        then have "st' = st2" using lb cap ns by simp
        then show ?thesis using bound by (simp add: t2)
      next
        case (Some res)
        then have p: "propagate a s res st2 = Inr st'" using lb cap ns by simp
        have r: "runner a (iteration st)
                   (if scoped_name s = ''Placeholder'' then placeholder (run a) else s)
                   (Some (targets st (name s))) = Some res"
          using Some assms(2) by (simp add: runner_results_def)
        have b: "\<forall>m t b. res_summary res = Some m \<longrightarrow> m t = Some b \<longrightarrow> bucket_set b \<subseteq> D"
        proof (intro allI impI)
          fix m t b assume "res_summary res = Some m" "m t = Some b"
          then have "bucket_set b \<subseteq> targets st (name s)"
            using assms(3) r unfolding runner_reports_given_def by blast
          then show "bucket_set b \<subseteq> D" using assms(4) by blast
        qed
        from propagate_targets[where n = n, OF p b] show ?thesis using bound by (auto simp: t2)
      qed
    qed
  qed
qed

lemma job_loop_targets:
  "job_loop a st = Inr (r, st') \<Longrightarrow> tracking_bfs_or_device a \<Longrightarrow> runner_reports_given a \<Longrightarrow>
   \<forall>n. targets st n \<subseteq> D \<Longrightarrow>
   \<forall>n. targets st n \<subseteq> targets st' n \<and> targets st' n \<subseteq> D"
proof (induction a st rule: job_loop.induct)
  case (1 a st)
  show ?case
  proof (cases "services st = [] \<or> stop (run a) (iteration st)")
    case True
    then have "st' = st" using "1.prems"(1)
      by (subst (asm) job_loop.simps) (auto split: if_splits)
    then show ?thesis using "1.prems"(4) by simp
  next
    case False
    then have ne: "services st \<noteq> []" and ns: "\<not> stop (run a) (iteration st)" by simp_all
    obtain st1 where b: "loop_body a st = Inr st1" and l: "job_loop a st1 = Inr (r, st')"
      using "1.prems"(1) ne ns by (subst (asm) job_loop.simps) (auto split: sum.splits)
    have step: "\<forall>n. targets st n \<subseteq> targets st1 n \<and> targets st1 n \<subseteq> D"
      using loop_body_targets[OF b "1.prems"(2,3,4)] by blast
    then have "\<forall>n. targets st1 n \<subseteq> D" by blast
    from "1.IH"[OF ne ns b l "1.prems"(2,3) this] step show ?thesis by blast
  qed
qed

lemma seed_targets:
  "seed a st ss = Inr st' \<Longrightarrow>
   targets st' n = targets st n \<union> (if n \<in> name ` set ss then set (start_targets a) else {})"
proof (induction ss arbitrary: st)
  case Nil
  then show ?case by simp
next
  case (Cons s ss)
  have p: "priority s \<noteq> 0"
    using Cons.prems by (auto simp: heap_key_def Let_def split: if_splits)
  then have k: "heap_key s = Inr (float_reciprocal (priority s))" by (simp add: heap_key_def)
  define st1 where "st1 = st\<lparr>targets := (targets st)
                   (name s := targets st (name s) \<union> set (start_targets a)),
                services := heappush (services st) (float_reciprocal (priority s), s)\<rparr>"
  have "seed a st1 ss = Inr st'"
    using Cons.prems k by (simp add: Let_def st1_def)
  from Cons.IH[OF this] show ?case by (auto simp: st1_def)
qed

lemma visit_successors_plain:
  assumes "\<not> tracking_bfs_or_device a"
  shows "\<forall>se \<in> set ns. priority (fst se) \<noteq> 0 \<Longrightarrow>
    visit_successors a summary t st ns =
      Inr (st\<lparr>services := foldl push_service (services st) (map fst ns),
              state_writes := state_writes st @ map edge_done ns\<rparr>)"
proof (induction ns arbitrary: st)
  case Nil
  then show ?case by simp
next
  case (Cons se ns)
  obtain successor e where se: "se = (successor, e)" by (cases se)
  have p: "priority successor \<noteq> 0" using Cons.prems se by simp
  define st1 where "st1 = st\<lparr>services := push_service (services st) successor,
      state_writes := state_writes st @ [edge_done se]\<rparr>"
  have v: "visit_successor a summary t st se = Inr st1"
    using assms p unfolding se visit_successor_def
    by (simp add: heap_key_def Let_def st1_def push_service_def edge_done_def se)
  have rest: "\<forall>se \<in> set ns. priority (fst se) \<noteq> 0" using Cons.prems by simp
  show ?case
    using v Cons.IH[OF rest, of st1] by (simp add: st1_def se)
qed

lemma propagate_service_targets:
  assumes "\<not> tracking_bfs a" and "device a = None" and "res_success res = Some ok"
    and "\<forall>se \<in> set (neighbors (db_edges a) s (self_name a) (if ok then ''success'' else ''failure'')).
           priority (fst se) \<noteq> 0"
  shows "propagate a s res st =
      Inr (st\<lparr>services := foldl push_service (services st)
                 (map fst (neighbors (db_edges a) s (self_name a)
                    (if ok then ''success'' else ''failure''))),
              state_writes := state_writes st
                 @ [WriteState (ProgressServicePath (if ok then ''success'' else ''failure''))
                      (IntValue 1) (Some ''increment'')]
                 @ map edge_done (neighbors (db_edges a) s (self_name a)
                    (if ok then ''success'' else ''failure''))\<rparr>)"
proof -
  have nt: "\<not> tracking_bfs_or_device a" using assms(1,2) by (simp add: tracking_bfs_or_device_def)
  show ?thesis
  proof (cases ok)
    case True
    then have p: "\<forall>se \<in> set (neighbors (db_edges a) s (self_name a) ''success''). priority (fst se) \<noteq> 0"
      using assms(4) by simp
    show ?thesis
      using assms(1,2,3) True
      by (simp add: propagate_def follow_edges_def Let_def visit_successors_plain[OF nt p])
  next
    case False
    then have p: "\<forall>se \<in> set (neighbors (db_edges a) s (self_name a) ''failure''). priority (fst se) \<noteq> 0"
      using assms(4) by simp
    show ?thesis
      using assms(1,2,3) False
      by (simp add: propagate_def follow_edges_def Let_def visit_successors_plain[OF nt p])
  qed
qed

lemma capped_pop:
  assumes "services st \<noteq> []" and "\<not> stop (run a) (iteration st)" and "dispatched a st = None"
  shows "\<exists>x h'. heappop (services st) = Inr (x, h') \<and>
           maximum_runs (snd x) \<le> number_of_runs st (name (snd x)) \<and>
           (\<forall>r. loop_body (a\<lparr>runner := r\<rparr>) st =
                  Inr (st\<lparr>services := h', iteration := Suc (iteration st)\<rparr>))"
proof -
  from heappop_nonempty[OF assms(1)] obtain x h' where pop: "heappop (services st) = Inr (x, h')"
    by blast
  have cap: "maximum_runs (snd x) \<le> number_of_runs st (name (snd x))"
    using assms pop by (auto simp: dispatched_def split: if_splits)
  have "loop_body (a\<lparr>runner := r\<rparr>) st = Inr (st\<lparr>services := h', iteration := Suc (iteration st)\<rparr>)" for r
    unfolding loop_body_def using pop cap by (simp add: Let_def)
  then show ?thesis using pop cap by blast
qed

lemma visit_successors_error:
  "visit_successors a summary t st ns = Inl e \<Longrightarrow> e = KeyError \<or> e = ZeroDivisionError"
proof (induction ns arbitrary: st)
  case Nil
  then show ?case by simp
next
  case (Cons se ns)
  obtain successor ed where se: "se = (successor, ed)" by (cases se)
  show ?case
  proof (cases "visit_successor a summary t st se")
    case (Inl e')
    then have e: "e = e'" using Cons.prems by simp
    have "e' = KeyError \<or> e' = ZeroDivisionError"
      using Inl unfolding se visit_successor_def
      by (cases "summary t"; cases "tracking_bfs_or_device a"; cases "priority successor = 0")
        (simp_all add: heap_key_def Let_def)
    then show ?thesis using e by simp
  next
    case (Inr st1)
    then have "visit_successors a summary t st1 ns = Inl e" using Cons.prems by simp
    then show ?thesis by (rule Cons.IH)
  qed
qed

lemma follow_edges_error:
  assumes "follow_edges a s status summary t st = Inl e"
  shows "e = KeyError \<or> e = ZeroDivisionError"
proof -
  have "e = KeyError \<or>
        visit_successors a summary t st (neighbors (db_edges a) s (self_name a) t) = Inl e"
    using assms unfolding follow_edges_def
    by (cases "summary t") (auto split: if_splits)
  then show ?thesis using visit_successors_error by blast
qed

section \<open>Properties of the codecs\<close>

lemma decode_char_length:
  "decode_char c cs = Inr (cp, rest) \<Longrightarrow> length rest \<le> length cs"
  unfolding decode_char_def Let_def
  by (auto split: if_splits list.splits)

termination bytes_decode
  by (relation "measure length") (auto dest: decode_char_length)

lemma of_char_char_of_small: "n < 256 \<Longrightarrow> (of_char (char_of n) :: nat) = n"
  by simp

lemma decode_encode_char:
  assumes "utf8_encode_char cp = Inr bs"
  shows "\<exists>c cs. bs = c # cs \<and> decode_char c (cs @ rest) = Inr (cp, rest)"
proof -
  consider (one) "cp < 128" | (two) "128 \<le> cp" "cp < 2048"
    | (three) "2048 \<le> cp" "cp < 65536" "\<not> surrogate cp"
    | (four) "65536 \<le> cp" "cp < 1114112"
    using assms by (auto simp: utf8_encode_char_def split: if_splits)
  then show ?thesis
  proof cases
    case one
    then have "bs = [char_of cp]" using assms by (simp add: utf8_encode_char_def)
    then show ?thesis using one by (simp add: decode_char_def)
  next
    case two
    then have bs: "bs = [char_of (192 + cp div 64), char_of (128 + cp mod 64)]"
      using assms by (simp add: utf8_encode_char_def)
    have r0: "192 + cp div 64 < 256" "194 \<le> 192 + cp div 64" "192 + cp div 64 < 224"
      using two by linarith+
    have r1: "128 + cp mod 64 < 256" "128 + cp mod 64 < 192" by linarith+
    have v: "(192 + cp div 64 - 192) * 64 + (128 + cp mod 64 - 128) = cp" by simp
    show ?thesis
      unfolding bs using r0 r1 v
      by (simp add: decode_char_def continuation_def Let_def of_char_char_of_small
          del: of_char_of)
  next
    case three
    then have bs: "bs = [char_of (224 + cp div 4096), char_of (128 + cp div 64 mod 64),
                   char_of (128 + cp mod 64)]"
      using assms by (simp add: utf8_encode_char_def)
    have r0: "224 + cp div 4096 < 256" "224 \<le> 224 + cp div 4096" "224 + cp div 4096 < 240"
      using three by linarith+
    have r1: "128 + cp div 64 mod 64 < 256" "128 + cp div 64 mod 64 < 192" by linarith+
    have r2: "128 + cp mod 64 < 256" "128 + cp mod 64 < 192" by linarith+
    define q where "q = cp div 64"
    define r where "r = cp mod 64"
    define k where "k = q div 64"
    define m where "m = q mod 64"
    have e1: "cp = 64 * q + r" by (simp add: q_def r_def)
    have e2: "q = 64 * k + m" by (simp add: k_def m_def)
    have d: "cp div 4096 = k"
      using div_mult2_eq[of cp 64 64] by (simp add: k_def q_def)
    have "k * 4096 + m * 64 + r = cp" by (simp add: e1 e2)
    then have v: "cp div 4096 * 4096 + cp div 64 mod 64 * 64 + cp mod 64 = cp"
      by (simp add: d m_def[symmetric] q_def[symmetric] r_def[symmetric])
    show ?thesis
      unfolding bs using r0 r1 r2 three
      by (simp add: decode_char_def continuation_def Let_def of_char_char_of_small v
          del: of_char_of)
  next
    case four
    then have bs: "bs = [char_of (240 + cp div 262144), char_of (128 + cp div 4096 mod 64),
             char_of (128 + cp div 64 mod 64), char_of (128 + cp mod 64)]"
      using assms by (simp add: utf8_encode_char_def)
    have r0: "240 + cp div 262144 < 256" "240 \<le> 240 + cp div 262144" "240 + cp div 262144 < 245"
      using four by linarith+
    have r1: "128 + cp div 4096 mod 64 < 256" "128 + cp div 4096 mod 64 < 192" by linarith+
    have r2: "128 + cp div 64 mod 64 < 256" "128 + cp div 64 mod 64 < 192" by linarith+
    have r3: "128 + cp mod 64 < 256" "128 + cp mod 64 < 192" by linarith+
    have v: "cp div 262144 * 262144 + cp div 4096 mod 64 * 4096
               + cp div 64 mod 64 * 64 + cp mod 64 = cp"
    proof -
      define q where "q = cp div 64"
      define r where "r = cp mod 64"
      define k where "k = q div 64"
      define m where "m = q mod 64"
      define j where "j = k div 64"
      define l where "l = k mod 64"
      have e1: "cp = 64 * q + r" by (simp add: q_def r_def)
      have e2: "q = 64 * k + m" by (simp add: k_def m_def)
      have e3: "k = 64 * j + l" by (simp add: j_def l_def)
      have d1: "cp div 4096 = k"
        using div_mult2_eq[of cp 64 64] by (simp add: k_def q_def)
      have d2: "cp div 262144 = j"
        using div_mult2_eq[of cp 4096 64] d1 by (simp add: j_def)
      have "j * 262144 + l * 4096 + m * 64 + r = cp" by (simp add: e1 e2 e3)
      then show ?thesis
        by (simp add: d1 d2 l_def[symmetric] m_def[symmetric] q_def[symmetric] r_def[symmetric])
    qed
    show ?thesis
      unfolding bs using r0 r1 r2 r3 four
      by (simp add: decode_char_def continuation_def Let_def of_char_char_of_small v
          del: of_char_of)
  qed
qed

lemma bytes_decode_str_encode:
  "str_encode s = Inr bs \<Longrightarrow> bytes_decode bs = Inr s"
proof (induction s arbitrary: bs)
  case Nil
  then show ?case by simp
next
  case (Cons cp s)
  then obtain b1 b2 where b1: "utf8_encode_char cp = Inr b1" and b2: "str_encode s = Inr b2"
    and bs: "bs = b1 @ b2"
    by (auto split: sum.splits)
  from decode_encode_char[OF b1, of b2] obtain c cs where
    c: "b1 = c # cs" "decode_char c (cs @ b2) = Inr (cp, b2)" by blast
  show ?case using Cons.IH[OF b2] c by (simp add: bs)
qed

lemma utf8_encode_char_ok:
  assumes "cp < 1114112" "\<not> surrogate cp"
  shows "\<exists>bs. utf8_encode_char cp = Inr bs \<and> bs \<noteq> []"
  using assms by (simp add: utf8_encode_char_def)

lemma str_encode_ok:
  "encodable s \<Longrightarrow> \<exists>bs. str_encode s = Inr bs \<and> (s \<noteq> [] \<longrightarrow> bs \<noteq> [])"
proof (induction s)
  case Nil
  then show ?case by simp
next
  case (Cons cp s)
  then have "cp < 1114112" "\<not> surrogate cp" "encodable s" by (simp_all add: encodable_def)
  from utf8_encode_char_ok[OF this(1,2)] Cons.IH[OF this(3)] show ?case by auto
qed

lemma b64_index_char:
  assumes "i < 64"
  shows "b64_index (b64_char i) = Some i \<and> b64_char i \<noteq> CHR ''=''"
proof -
  consider "i < 26" | "26 \<le> i" "i < 52" | "52 \<le> i" "i < 62" | "i = 62" | "i = 63"
    using assms by linarith
  then show ?thesis
  proof cases
    case 1
    then have "(of_char (b64_char i) :: nat) = 65 + i" by (simp add: b64_char_def)
    then show ?thesis using 1 by (auto simp: b64_index_def Let_def)
  next
    case 2
    then have "(of_char (b64_char i) :: nat) = 71 + i" by (simp add: b64_char_def)
    then show ?thesis using 2 by (auto simp: b64_index_def Let_def)
  next
    case 3
    then have "(of_char (b64_char i) :: nat) = i - 4" by (simp add: b64_char_def)
    then show ?thesis using 3 by (auto simp: b64_index_def Let_def)
  next
    case 4
    then show ?thesis by (simp add: b64_index_def b64_char_def Let_def)
  next
    case 5
    then show ?thesis by (simp add: b64_index_def b64_char_def Let_def)
  qed
qed

lemma a2b_step0:
  "i < 64 \<Longrightarrow> a2b_base64 (b64_char i # rest) 0 l p out = a2b_base64 rest 1 i 0 out"
  using b64_index_char[of i] by simp

lemma a2b_step1:
  "i < 64 \<Longrightarrow> a2b_base64 (b64_char i # rest) 1 l p out =
     a2b_base64 rest 2 (i mod 16) 0 (out @ [char_of (l * 4 + i div 16)])"
  using b64_index_char[of i] by simp

lemma a2b_step2:
  "i < 64 \<Longrightarrow> a2b_base64 (b64_char i # rest) 2 l p out =
     a2b_base64 rest 3 (i mod 4) 0 (out @ [char_of (l * 16 + i div 4)])"
  using b64_index_char[of i] by simp

lemma a2b_step3:
  "i < 64 \<Longrightarrow> a2b_base64 (b64_char i # rest) 3 l p out =
     a2b_base64 rest 0 0 0 (out @ [char_of (l * 64 + i)])"
  using b64_index_char[of i] by simp

lemma pack16: fixes a b :: nat assumes "b < 16"
  shows "(a * 16 + b) div 16 = a" "(a * 16 + b) mod 16 = b"
  using assms by simp_all

lemma pack4: fixes a b :: nat assumes "b < 4"
  shows "(a * 4 + b) div 4 = a" "(a * 4 + b) mod 4 = b"
  using assms by simp_all

lemma sextets:
  fixes x y z :: nat
  assumes "x < 256" "y < 256" "z < 256"
  shows "x div 4 < 64" "x mod 4 * 16 + y div 16 < 64" "y mod 16 * 4 + z div 64 < 64"
    "z mod 64 < 64" "x mod 4 * 16 < 64" "y mod 16 * 4 < 64"
proof -
  define a where "a = x mod 4"
  define b where "b = y div 16"
  define c where "c = y mod 16"
  define d where "d = z div 64"
  have a: "a < 4" and c: "c < 16" by (simp_all add: a_def c_def)
  have b: "b < 16" using assms(2) by (simp add: b_def less_mult_imp_div_less)
  have d: "d < 4" using assms(3) by (simp add: d_def less_mult_imp_div_less)
  show "x div 4 < 64" using assms(1) by (simp add: less_mult_imp_div_less)
  show "z mod 64 < 64" by simp
  have "a * 16 + b < 64" using a b by linarith
  then show "x mod 4 * 16 + y div 16 < 64" by (simp add: a_def b_def)
  have "c * 4 + d < 64" using c d by linarith
  then show "y mod 16 * 4 + z div 64 < 64" by (simp add: c_def d_def)
  have "a * 16 < 64" using a by linarith
  then show "x mod 4 * 16 < 64" by (simp add: a_def)
  have "c * 4 < 64" using c by linarith
  then show "y mod 16 * 4 < 64" by (simp add: c_def)
qed

lemma unpack:
  fixes x y z :: nat
  assumes "y < 256" "z < 256"
  shows "x div 4 * 4 + (x mod 4 * 16 + y div 16) div 16 = x"
    "(x mod 4 * 16 + y div 16) mod 16 * 16 + (y mod 16 * 4 + z div 64) div 4 = y"
    "(y mod 16 * 4 + z div 64) mod 4 * 64 + z mod 64 = z"
    "x div 4 * 4 + (x mod 4 * 16) div 16 = x"
    "(x mod 4 * 16 + y div 16) mod 16 * 16 + (y mod 16 * 4) div 4 = y"
proof -
  have b: "y div 16 < 16" using assms(1) by (simp add: less_mult_imp_div_less)
  have d: "z div 64 < 4" using assms(2) by (simp add: less_mult_imp_div_less)
  show "x div 4 * 4 + (x mod 4 * 16 + y div 16) div 16 = x"
    by (simp add: pack16(1)[OF b])
  show "(x mod 4 * 16 + y div 16) mod 16 * 16 + (y mod 16 * 4 + z div 64) div 4 = y"
    by (simp add: pack16(2)[OF b] pack4(1)[OF d] mod_less[OF b] div_less[OF d])
  show "(y mod 16 * 4 + z div 64) mod 4 * 64 + z mod 64 = z"
    by (simp add: pack4(2)[OF d] mod_less[OF d])
  show "x div 4 * 4 + (x mod 4 * 16) div 16 = x" by simp
  show "(x mod 4 * 16 + y div 16) mod 16 * 16 + (y mod 16 * 4) div 4 = y"
    by (simp add: pack16(2)[OF b] mod_less[OF b])
qed

lemma a2b_group:
  "a2b_base64 (b64encode (a # b # c # rest)) 0 l p out =
   a2b_base64 (b64encode rest) 0 0 0 (out @ [a, b, c])"
proof -
  define x where "x = (of_char a :: nat)"
  define y where "y = (of_char b :: nat)"
  define z where "z = (of_char c :: nat)"
  have lt: "x < 256" "y < 256" "z < 256" by (simp_all add: x_def y_def z_def)
  note s = sextets[OF lt]
  note u = unpack[OF lt(2,3)]
  have ch: "char_of x = a" "char_of y = b" "char_of z = c" by (simp_all add: x_def y_def z_def)
  have e: "b64encode (a # b # c # rest) =
      b64_char (x div 4) # b64_char (x mod 4 * 16 + y div 16) #
      b64_char (y mod 16 * 4 + z div 64) # b64_char (z mod 64) # b64encode rest"
    by (simp add: x_def y_def z_def Let_def)
  show ?thesis
    unfolding e
    by (simp only: a2b_step0[OF s(1)] a2b_step1[OF s(2)] a2b_step2[OF s(3)] a2b_step3[OF s(4)]
        u ch append_assoc append_Cons append_Nil)
qed

lemma a2b_pad2:
  "a2b_base64 (b64encode [a]) 0 l p out = Inr (out @ [a])"
proof -
  define x where "x = (of_char a :: nat)"
  have lt: "x < 256" by (simp add: x_def)
  note s = sextets[OF lt lt lt]
  note u = unpack[OF lt lt]
  have ch: "char_of x = a" by (simp add: x_def)
  have e: "b64encode [a] = [b64_char (x div 4), b64_char (x mod 4 * 16), CHR ''='', CHR ''='']"
    by (simp add: x_def Let_def)
  have "a2b_base64 (b64encode [a]) 0 l p out =
        a2b_base64 [CHR ''='', CHR ''=''] 2 (x mod 4 * 16 mod 16) 0 (out @ [a])"
    unfolding e by (simp only: a2b_step0[OF s(1)] a2b_step1[OF s(5)] u ch)
  then show ?thesis by simp
qed

lemma a2b_pad1:
  "a2b_base64 (b64encode [a, b]) 0 l p out = Inr (out @ [a, b])"
proof -
  define x where "x = (of_char a :: nat)"
  define y where "y = (of_char b :: nat)"
  have lt: "x < 256" "y < 256" by (simp_all add: x_def y_def)
  note s = sextets[OF lt lt(2)]
  note u = unpack[OF lt(2) lt(2)]
  have ch: "char_of x = a" "char_of y = b" by (simp_all add: x_def y_def)
  have e: "b64encode [a, b] = [b64_char (x div 4), b64_char (x mod 4 * 16 + y div 16),
          b64_char (y mod 16 * 4), CHR ''='']"
    by (simp add: x_def y_def Let_def)
  have "a2b_base64 (b64encode [a, b]) 0 l p out =
        a2b_base64 [CHR ''=''] 3 (y mod 16 * 4 mod 4) 0 (out @ [a, b])"
    unfolding e
    by (simp only: a2b_step0[OF s(1)] a2b_step1[OF s(2)] a2b_step2[OF s(6)] u ch
        append_assoc append_Cons append_Nil)
  then show ?thesis by simp
qed

lemma a2b_b64encode:
  "a2b_base64 (b64encode bs) 0 l p out = Inr (out @ bs)"
proof (induction bs arbitrary: l p out rule: b64encode.induct)
  case 1
  then show ?case by simp
next
  case (2 a)
  then show ?case by (rule a2b_pad2)
next
  case (3 a b)
  then show ?case by (rule a2b_pad1)
next
  case (4 a b c rest)
  show ?case unfolding a2b_group by (simp add: "4.IH")
qed

lemma b64encode_nonempty: "bs \<noteq> [] \<Longrightarrow> b64encode bs \<noteq> []"
  by (induction bs rule: b64encode.induct) (simp_all add: Let_def)

lemma init_encryption_cases:
  assumes "init_encryption Fernet key = Inr env" and "fernet_contract Fernet"
  shows "b \<noteq> [] \<longrightarrow> decrypt env (Bytes (encrypt env n b)) = Inr b \<and> encrypt env n b \<noteq> []"
proof (cases "\<exists>k. key = Some k \<and> k \<noteq> []")
  case True
  then obtain k where k: "key = Some k" "k \<noteq> []" by blast
  then obtain f where f: "Fernet k = Inr f"
    and env: "env = \<lparr>fernet_encryption = key, encrypt = fernet_encrypt f, decrypt = fernet_decrypt f\<rparr>"
    using assms(1) by (cases "Fernet k") (simp_all add: init_encryption_def)
  show ?thesis using assms(2) f unfolding env fernet_contract_def by simp
next
  case False
  then have env: "env = \<lparr>fernet_encryption = key, encrypt = (\<lambda>n. b64encode), decrypt = b64decode\<rparr>"
    using assms(1) by (cases key) (auto simp: init_encryption_def split: if_splits)
  show ?thesis unfolding env by (simp add: a2b_b64encode b64encode_nonempty)
qed

lemma catch_request_exceptions_raises:
  "catch_request_exceptions r = Inl e \<Longrightarrow> r = Inl e \<and> \<not> isinstance_Exception e"
  by (cases r) (auto simp: catch_request_exceptions_def split: if_splits)

section \<open>The claims\<close>

text \<open>
  C1. What \<open>job\<close> does with the results of a service that hold \<open>success\<close>.
  With \<open>run_method = per_service_with_workflow_targets\<close>, a summary holding both keys and
  no successor of priority 0 on the edges taken: for each edge type in (success, failure)
  whose bucket is not empty and each outgoing edge of that type, in the order of
  \<open>service.neighbors\<close>, the bucket is added to \<open>targets[successor.name]\<close>, the successor is
  pushed and \<open>write_state\<close> increments the key \<open>edges/id\<close> of the edge by the size of the
  bucket; nothing else changes.
  With \<open>run_method = per_service_with_service_targets\<close>, no device argument and no successor
  of priority 0 on the edges of the status: \<open>progress/service/status\<close> is incremented by 1,
  only the outgoing edges whose type is the status are followed, each successor is pushed
  and the key \<open>edges/id\<close> of the edge is set to \<open>DONE\<close>; \<open>targets\<close> does not change.
\<close>
theorem tracking_bfs_propagates_device_sets:
  assumes "res_success res = Some ok"
  shows "(tracking_bfs a \<longrightarrow> res_summary res = Some m \<longrightarrow>
          m ''success'' = Some bs \<longrightarrow> m ''failure'' = Some bf \<longrightarrow>
          (\<forall>se \<in> set (taken_edges a s m ''success'') \<union> set (taken_edges a s m ''failure'').
             priority (fst se) \<noteq> 0) \<longrightarrow>
          propagate a s res st =
            Inr (st\<lparr>targets := (\<lambda>n. targets st n
                 \<union> (if n \<in> name ` fst ` set (taken_edges a s m ''success'') then bucket_set bs else {})
                 \<union> (if n \<in> name ` fst ` set (taken_edges a s m ''failure'') then bucket_set bf else {})),
              services := foldl push_service (services st)
                 (map fst (taken_edges a s m ''success'' @ taken_edges a s m ''failure'')),
              state_writes := state_writes st
                 @ map (edge_increment bs) (taken_edges a s m ''success'')
                 @ map (edge_increment bf) (taken_edges a s m ''failure'')\<rparr>)) \<and>
         (run_method (run a) = ''per_service_with_service_targets'' \<longrightarrow> device a = None \<longrightarrow>
          (\<forall>se \<in> set (neighbors (db_edges a) s (self_name a) (if ok then ''success'' else ''failure'')).
             priority (fst se) \<noteq> 0) \<longrightarrow>
          propagate a s res st =
            Inr (st\<lparr>services := foldl push_service (services st)
                 (map fst (neighbors (db_edges a) s (self_name a)
                    (if ok then ''success'' else ''failure''))),
              state_writes := state_writes st
                 @ [WriteState (ProgressServicePath (if ok then ''success'' else ''failure''))
                      (IntValue 1) (Some ''increment'')]
                 @ map edge_done (neighbors (db_edges a) s (self_name a)
                    (if ok then ''success'' else ''failure''))\<rparr>))"
proof (intro conjI impI)
  assume tb: "tracking_bfs a" and m: "res_summary res = Some m"
    and ms: "m ''success'' = Some bs" and mf: "m ''failure'' = Some bf"
    and pr: "\<forall>se \<in> set (taken_edges a s m ''success'') \<union> set (taken_edges a s m ''failure'').
           priority (fst se) \<noteq> 0"
  have p1: "\<forall>se \<in> set (taken_edges a s m ''success''). priority (fst se) \<noteq> 0"
    and p2: "\<forall>se \<in> set (taken_edges a s m ''failure''). priority (fst se) \<noteq> 0"
    using pr by auto
  note f1 = follow_edges_tracking_bfs[OF tb ms p1]
  note f2 = follow_edges_tracking_bfs[OF tb mf p2]
  show "propagate a s res st =
            Inr (st\<lparr>targets := (\<lambda>n. targets st n
                 \<union> (if n \<in> name ` fst ` set (taken_edges a s m ''success'') then bucket_set bs else {})
                 \<union> (if n \<in> name ` fst ` set (taken_edges a s m ''failure'') then bucket_set bf else {})),
              services := foldl push_service (services st)
                 (map fst (taken_edges a s m ''success'' @ taken_edges a s m ''failure'')),
              state_writes := state_writes st
                 @ map (edge_increment bs) (taken_edges a s m ''success'')
                 @ map (edge_increment bf) (taken_edges a s m ''failure'')\<rparr>)"
    using tb assms m by (simp add: propagate_def Let_def f1 f2)
next
  assume rm: "run_method (run a) = ''per_service_with_service_targets''" and d: "device a = None"
    and pr: "\<forall>se \<in> set (neighbors (db_edges a) s (self_name a) (if ok then ''success'' else ''failure'')).
             priority (fst se) \<noteq> 0"
  have nt: "\<not> tracking_bfs a" using rm by (simp add: tracking_bfs_def)
  show "propagate a s res st =
            Inr (st\<lparr>services := foldl push_service (services st)
                 (map fst (neighbors (db_edges a) s (self_name a)
                    (if ok then ''success'' else ''failure''))),
              state_writes := state_writes st
                 @ [WriteState (ProgressServicePath (if ok then ''success'' else ''failure''))
                      (IntValue 1) (Some ''increment'')]
                 @ map edge_done (neighbors (db_edges a) s (self_name a)
                    (if ok then ''success'' else ''failure''))\<rparr>)"
    by (rule propagate_service_targets[OF nt d assms pr])
qed

text \<open>
  C2. From the seeded state, over any number of iterations, a service \<open>s\<close> is dispatched
  at most \<open>max 0 (maximum_runs s)\<close> times. An iteration that pops a service and does not
  dispatch it finds the run count of that service at or above its \<open>maximum_runs\<close> and only
  removes the entry from the heap, whatever the Runner is: no Runner result is read, no
  count changes and nothing is written. An iteration that dispatches \<open>s'\<close> finds its run count
  below \<open>maximum_runs s'\<close>, increments it, and continues with the synthesized results when
  \<open>s'\<close> is skipped and with the results of the Runner otherwise.
\<close>
theorem dispatch_count_le_maximum_runs:
  assumes "job_init a = Inr st0"
  shows "int (dispatch_count a s n st0) \<le> max 0 (maximum_runs s) \<and>
    (\<forall>st. services st \<noteq> [] \<longrightarrow> \<not> stop (run a) (iteration st) \<longrightarrow> dispatched a st = None \<longrightarrow>
       (\<exists>x h'. heappop (services st) = Inr (x, h') \<and>
           maximum_runs (snd x) \<le> number_of_runs st (name (snd x)) \<and>
           (\<forall>r. loop_body (a\<lparr>runner := r\<rparr>) st =
                  Inr (st\<lparr>services := h', iteration := Suc (iteration st)\<rparr>)))) \<and>
    (\<forall>st s'. dispatched a st = Some s' \<longrightarrow>
       (\<exists>k h'. heappop (services st) = Inr ((k, s'), h') \<and>
          number_of_runs st (name s') < maximum_runs s' \<and>
          loop_body a st =
            (let st2 = st\<lparr>services := h', iteration := Suc (iteration st),
                     number_of_runs := (number_of_runs st)(name s' := number_of_runs st (name s') + 1),
                     visited := insert (service_id s') (visited st)\<rparr>
             in if is_skipped a s' then propagate a s' (skipped_results a st2 s') st2
                else (case runner_results a st s' of None \<Rightarrow> Inr st2
                      | Some res \<Rightarrow> propagate a s' res st2))))"
proof (intro conjI allI impI)
  show "int (dispatch_count a s n st0) \<le> max 0 (maximum_runs s)"
  proof (cases "0 < dispatch_count a s n st0")
    case True
    from dispatch_count_bound[OF this] show ?thesis
      using job_init_frame(1)[OF assms(1)] by simp
  next
    case False
    then show ?thesis by simp
  qed
next
  fix st
  assume "services st \<noteq> []" "\<not> stop (run a) (iteration st)" "dispatched a st = None"
  then show "\<exists>x h'. heappop (services st) = Inr (x, h') \<and>
           maximum_runs (snd x) \<le> number_of_runs st (name (snd x)) \<and>
           (\<forall>r. loop_body (a\<lparr>runner := r\<rparr>) st =
                  Inr (st\<lparr>services := h', iteration := Suc (iteration st)\<rparr>))"
    by (rule capped_pop)
next
  fix st s'
  assume d: "dispatched a st = Some s'"
  from dispatched_loop_body_eq[OF d]
  show "\<exists>k h'. heappop (services st) = Inr ((k, s'), h') \<and>
          number_of_runs st (name s') < maximum_runs s' \<and>
          loop_body a st =
            (let st2 = st\<lparr>services := h', iteration := Suc (iteration st),
                     number_of_runs := (number_of_runs st)(name s' := number_of_runs st (name s') + 1),
                     visited := insert (service_id s') (visited st)\<rparr>
             in if is_skipped a s' then propagate a s' (skipped_results a st2 s') st2
                else (case runner_results a st s' of None \<Rightarrow> Inr st2
                      | Some res \<Rightarrow> propagate a s' res st2))"
    by blast
qed

text \<open>
  C3. A run that returns without being aborted, with \<open>run_method =
  per_service_with_workflow_targets\<close> or with a device argument, in which \<open>Start\<close> is among
  the seeded services and the Runner reports only devices that were given to it:
  \<open>targets[End.name]\<close> is a subset of \<open>targets[Start.name]\<close>, the returned summary is
  \<open>{success: targets[End.name], failure: targets[Start.name] - targets[End.name]}\<close>, and
  \<open>success\<close> holds if and only if \<open>targets[End.name] = targets[Start.name]\<close>; the payload is
  \<open>run.payload\<close> and the heap is empty.
\<close>
theorem job_tracking_result:
  assumes "job a = Inr (r, st)" and "out_result r \<noteq> Some ''Aborted''"
    and "tracking_bfs a \<or> device a \<noteq> None"
    and "start_is_seeded a" and "runner_reports_given a"
  shows "targets st (name (db_end a)) \<subseteq> targets st (name (db_start a)) \<and>
         out_summary r = Some [''success'' \<mapsto> targets st (name (db_end a)),
            ''failure'' \<mapsto> targets st (name (db_start a)) - targets st (name (db_end a))] \<and>
         (out_success r \<longleftrightarrow> targets st (name (db_end a)) = targets st (name (db_start a))) \<and>
         out_payload r = payload (run a) \<and> services st = []"
proof -
  from assms(1) obtain st0 where i: "job_init a = Inr st0" and l: "job_loop a st0 = Inr (r, st)"
    by (auto simp: job_def split: sum.splits)
  from job_loop_result[OF l] assms(2) have e: "services st = []" and r: "r = final_results a st"
    by (auto simp: aborted_def)
  define D where "D = set (start_targets a)"
  have t0: "targets st0 n = (if n \<in> name ` set (if start_services (run a) = [] then [db_start a]
                                 else start_services (run a)) then D else {})" for n
    using seed_targets[OF i[unfolded job_init_def], of n] by (simp add: empty_state_def D_def)
  have b0: "\<forall>n. targets st0 n \<subseteq> D" using t0 by simp
  have s0: "targets st0 (name (db_start a)) = D"
    using t0[of "name (db_start a)"] assms(4) unfolding start_is_seeded_def by simp
  have tb: "tracking_bfs_or_device a" using assms(3) by (simp add: tracking_bfs_or_device_def)
  note inv = job_loop_targets[OF l tb assms(5) b0]
  have "targets st (name (db_start a)) = D" using inv s0 by blast
  moreover have "targets st (name (db_end a)) \<subseteq> D" using inv by blast
  ultimately have c: "targets st (name (db_end a)) \<subseteq> targets st (name (db_start a))" by simp
  show ?thesis
    using c e r tb by (auto simp: final_results_def Let_def)
qed

text \<open>
  C4. An iteration that dispatches a service \<open>s\<close> that is \<open>Start\<close>, \<open>End\<close> or has
  \<open>skip[workflow.name]\<close> true does not depend on the Runner: it continues with the results
  \<open>{success: skip_value = success, result: skipped}\<close>, to which the summary
  \<open>{success: targets[s.name], failure: []}\<close> is added exactly when \<open>run_method\<close> is
  \<open>per_service_with_workflow_targets\<close> or a device argument is given.
\<close>
theorem skipped_service_synthesized:
  assumes "dispatched a st = Some s" and "is_skipped a s"
    and "heappop (services st) = Inr (x, h')"
  shows "loop_body (a\<lparr>runner := r\<rparr>) st =
       propagate a s
         \<lparr>res_success = Some (skip_value s = ''success''), res_result = Some ''skipped'',
          res_summary = (if tracking_bfs a \<or> device a \<noteq> None
            then Some [''success'' \<mapsto> DevSet (targets st (name s)), ''failure'' \<mapsto> DevList []]
            else None)\<rparr>
         (st\<lparr>services := h', iteration := Suc (iteration st),
             number_of_runs := (number_of_runs st)(name s := number_of_runs st (name s) + 1),
             visited := insert (service_id s) (visited st)\<rparr>)"
proof -
  have d: "dispatched (a\<lparr>runner := r\<rparr>) st = Some s" using assms(1) by simp
  have sk: "is_skipped (a\<lparr>runner := r\<rparr>) s" using assms(2) by (simp add: is_skipped_def)
  from dispatched_loop_body_eq[OF d] assms(3) sk show ?thesis
    by (auto simp: Let_def skipped_results_def tracking_bfs_or_device_def tracking_bfs_def)
qed

text \<open>
  C5. At any iteration reached from the seeded state, if two entries \<open>ea\<close> and \<open>eb\<close> are in
  the heap with \<open>0 < priority b < priority a\<close> and \<open>priority b < 2 ^ 52\<close>, the popped service
  is not \<open>b\<close>: \<open>b\<close> is not dispatched while \<open>a\<close> is pending.
\<close>
theorem higher_priority_popped_first:
  assumes "job_init a = Inr st0" and "job_iter a n st0 = Some st"
    and "heappop (services st) = Inr (x, h')"
    and "ea \<in> set (services st)" and "eb \<in> set (services st)"
    and "0 < priority (snd eb)" and "priority (snd eb) < priority (snd ea)"
    and "priority (snd eb) < 2 ^ 52"
  shows "snd x \<noteq> snd eb"
proof
  assume eq: "snd x = snd eb"
  have inv: "heap_ok (services st)" "entries_ok (services st)"
    using job_iter_heap_inv[OF assms(2)] job_init_heap_inv[OF assms(1)] by simp_all
  have xin: "x \<in> set (services st)" using heappop_set[OF assms(3)] by simp
  have ka: "fst ea = float_reciprocal (priority (snd ea))"
    and kb: "fst eb = float_reciprocal (priority (snd eb))"
    and kx: "fst x = float_reciprocal (priority (snd x))"
    using inv(2) assms(4,5) xin by (simp_all add: entries_ok_def)
  have "fst x \<le> fst ea" using heappop_result[OF inv(1) assms(3)] assms(4) by simp
  moreover have "fst ea < fst eb"
    unfolding ka kb by (rule float_reciprocal_strict[OF assms(6,7,8)])
  ultimately show False using kx kb eq by simp
qed

text \<open>
  C6. \<open>job\<close> does not coerce a priority of 0. Seeding a service of priority 0 makes \<open>job\<close>
  raise ZeroDivisionError, and so does the push of a successor of priority 0, unless the
  lookup \<open>summary[edge_type]\<close> before it has raised KeyError.
\<close>
theorem zero_priority_raises:
  assumes "priority s = 0"
  shows "(s \<in> set (if start_services (run a) = [] then [db_start a] else start_services (run a))
            \<longrightarrow> job a = Inl ZeroDivisionError) \<and>
         visit_successor a summary t st (s, e) =
           (if tracking_bfs_or_device a \<and> summary t = None then Inl KeyError
            else Inl ZeroDivisionError)"
proof
  show "s \<in> set (if start_services (run a) = [] then [db_start a] else start_services (run a))
            \<longrightarrow> job a = Inl ZeroDivisionError"
  proof
    assume "s \<in> set (if start_services (run a) = [] then [db_start a] else start_services (run a))"
    then have "\<exists>s \<in> set (if start_services (run a) = [] then [db_start a] else start_services (run a)). priority s = 0"
      using assms by blast
    then have "job_init a = Inl ZeroDivisionError"
      unfolding job_init_def by (rule seed_zero_priority)
    then show "job a = Inl ZeroDivisionError"
      by (simp add: job_def)
  qed
next
  show "visit_successor a summary t st (s, e) =
           (if tracking_bfs_or_device a \<and> summary t = None then Inl KeyError
            else Inl ZeroDivisionError)"
    using assms by (cases "summary t") (simp_all add: visit_successor_def heap_key_def)
qed

text \<open>
  C7. If \<open>run.stop\<close> is true at the top of an iteration that the loop reaches with a
  non-empty heap, \<open>job\<close> returns \<open>{payload: run.payload, success: False, result: Aborted}\<close>
  with the state of that moment: no further service is dispatched and nothing further is
  written.
\<close>
theorem job_stop_aborted:
  assumes "job_init a = Inr st0" and "job_iter a n st0 = Some st"
    and "services st \<noteq> []" and "stop (run a) n"
  shows "job a = Inr (\<lparr>out_payload = payload (run a), out_success = False,
                       out_result = Some ''Aborted'', out_summary = None\<rparr>, st)"
proof -
  have "iteration st = n"
    using job_iter_iteration[OF assms(2)] job_init_frame(3)[OF assms(1)] by simp
  then have "job_loop a st = Inr (aborted a, st)"
    using assms(3,4) by (subst job_loop.simps) simp
  then show ?thesis
    using job_iter_loop[OF assms(2)] assms(1) by (simp add: job_def aborted_def)
qed

text \<open>
  C8. The scheduler client behind \<open>_catch_request_exceptions\<close>. When the request raises
  ConnectionError (ConnectTimeout included), MissingSchema or ReadTimeout, \<open>next_run_time\<close>
  and \<open>time_before_next_run\<close> return the string \<open>Scheduler Unreachable\<close>. When the post of \<open>schedule\<close>
  raises ConnectionError (ConnectTimeout included), \<open>schedule\<close> returns the alert dict and
  leaves the task as it was; when it raises ReadTimeout, \<open>schedule\<close> returns the string
  \<open>Scheduler Unreachable\<close>; when the response is malformed (\<open>json()\<close> raises
  JSONDecodeError), \<open>schedule\<close> returns the string \<open>Error (message)\<close>. Whatever one of the
  three calls raises to its caller is not an instance of \<open>Exception\<close>.
\<close>
theorem scheduler_client_catches:
  "(isinstance_ConnectionError e \<or> exc_class e = MissingSchema \<or> exc_class e = ReadTimeout \<longrightarrow>
      next_run_time (Inl e) = Inr (JStr ''Scheduler Unreachable'') \<and>
      time_before_next_run (Inl e) = Inr (JStr ''Scheduler Unreachable'')) \<and>
   (get_properties c = Inr p \<longrightarrow> post_response c = Inl e \<longrightarrow> isinstance_ConnectionError e \<longrightarrow>
      schedule c self =
        (Inr (JObj [(''alert'', JStr ''Scheduler Unreachable: the task cannot be scheduled.'')]),
         self)) \<and>
   (get_properties c = Inr p \<longrightarrow> post_response c = Inl e \<longrightarrow> exc_class e = ReadTimeout \<longrightarrow>
      schedule c self = (Inr (JStr ''Scheduler Unreachable''), self)) \<and>
   (get_properties c = Inr p \<longrightarrow> post_response c = Inr (Inl e) \<longrightarrow>
    exc_class e = JSONDecodeError \<longrightarrow>
      schedule c self = (Inr (JStr (''Error ('' @ exc_message e @ '')'')), self)) \<and>
   (next_run_time http = Inl e \<or> time_before_next_run http = Inl e \<or>
    fst (schedule c self) = Inl e \<longrightarrow> \<not> isinstance_Exception e)"
proof (intro conjI impI)
  assume "isinstance_ConnectionError e \<or> exc_class e = MissingSchema \<or> exc_class e = ReadTimeout"
  then show "next_run_time (Inl e) = Inr (JStr ''Scheduler Unreachable'')"
    and "time_before_next_run (Inl e) = Inr (JStr ''Scheduler Unreachable'')"
    by (auto simp: next_run_time_def time_before_next_run_def response_json_def
        catch_request_exceptions_def)
next
  assume "get_properties c = Inr p" "post_response c = Inl e" "isinstance_ConnectionError e"
  then show "schedule c self =
        (Inr (JObj [(''alert'', JStr ''Scheduler Unreachable: the task cannot be scheduled.'')]),
         self)"
    by (simp add: schedule_def schedule_body_def response_json_def alert_def
        catch_request_exceptions_def)
next
  assume "get_properties c = Inr p" "post_response c = Inl e" "exc_class e = ReadTimeout"
  then show "schedule c self = (Inr (JStr ''Scheduler Unreachable''), self)"
    by (simp add: schedule_def schedule_body_def response_json_def
        catch_request_exceptions_def isinstance_ConnectionError_def)
next
  assume "get_properties c = Inr p" "post_response c = Inr (Inl e)" "exc_class e = JSONDecodeError"
  then show "schedule c self = (Inr (JStr (''Error ('' @ exc_message e @ '')'')), self)"
    by (simp add: schedule_def schedule_body_def response_json_def
        catch_request_exceptions_def isinstance_ConnectionError_def isinstance_Exception_def)
next
  assume a: "next_run_time http = Inl e \<or> time_before_next_run http = Inl e \<or>
    fst (schedule c self) = Inl e"
  have "fst (schedule c self) = catch_request_exceptions (fst (schedule_body c self))"
    by (cases "schedule_body c self") (simp add: schedule_def)
  then show "\<not> isinstance_Exception e"
    using a catch_request_exceptions_raises
    unfolding next_run_time_def time_before_next_run_def by metis
qed

text \<open>
  C9. After a successful \<open>init_encryption\<close>, with or without \<open>FERNET_KEY\<close>, and with a Fernet
  whose \<open>decrypt\<close> inverts \<open>encrypt\<close> and whose tokens are not empty: for every non-empty
  password that UTF-8 can encode (no surrogate code point), \<open>encrypt_password\<close> returns a
  token and \<open>get_password\<close> of that token returns the password.
\<close>
theorem password_roundtrip:
  assumes "init_encryption Fernet key = Inr env" and "fernet_contract Fernet"
    and "password \<noteq> []" and "encodable password"
  shows "\<exists>token. encrypt_password env n (Str password) = Inr token \<and>
           get_password env (Bytes token) = Inr (Some password)"
proof -
  from str_encode_ok[OF assms(4)] assms(3) obtain bs where
    bs: "str_encode password = Inr bs" "bs \<noteq> []" by blast
  from init_encryption_cases[OF assms(1,2), of bs n] bs(2)
  have d: "decrypt env (Bytes (encrypt env n bs)) = Inr bs" and ne: "encrypt env n bs \<noteq> []"
    by simp_all
  have "encrypt_password env n (Str password) = Inr (encrypt env n bs)"
    by (simp add: encrypt_password_def bs(1))
  moreover have "get_password env (Bytes (encrypt env n bs)) = Inr (Some password)"
    using d ne bytes_decode_str_encode[OF bs(1)] by (simp add: get_password_def)
  ultimately show ?thesis by blast
qed

text \<open>
  C10. With \<open>run_method = per_service_with_workflow_targets\<close>, when the Runner of a
  dispatched service that is not skipped returns non-empty results without a summary, or
  with a summary that lacks \<open>success\<close> or \<open>failure\<close>, \<open>job\<close> raises: KeyError or
  ZeroDivisionError, and KeyError whenever the summary or its \<open>success\<close> key is missing.
\<close>
theorem missing_summary_raises_KeyError:
  assumes "job_init a = Inr st0" and "job_iter a n st0 = Some st"
    and "tracking_bfs a" and "dispatched a st = Some s" and "\<not> is_skipped a s"
    and "runner_results a st s = Some res"
    and "res_summary res = None \<or>
         (\<exists>m. res_summary res = Some m \<and> (m ''success'' = None \<or> m ''failure'' = None))"
  shows "(job a = Inl KeyError \<or> job a = Inl ZeroDivisionError) \<and>
         (res_summary res = None \<or> (\<exists>m. res_summary res = Some m \<and> m ''success'' = None)
            \<longrightarrow> job a = Inl KeyError)"
proof -
  from dispatched_loop_body_eq[OF assms(4)] obtain k h' where
    pop: "heappop (services st) = Inr ((k, s), h')"
    and ne: "services st \<noteq> []" and ns: "\<not> stop (run a) (iteration st)"
    and lb: "loop_body a st =
       (let st2 = st\<lparr>services := h', iteration := Suc (iteration st),
                     number_of_runs := (number_of_runs st)(name s := number_of_runs st (name s) + 1),
                     visited := insert (service_id s) (visited st)\<rparr>
        in if is_skipped a s then propagate a s (skipped_results a st2 s) st2
           else (case runner_results a st s of None \<Rightarrow> Inr st2
                 | Some res \<Rightarrow> propagate a s res st2))"
    by blast
  define summary where "summary = (case res_summary res of None \<Rightarrow> Map.empty | Some m \<Rightarrow> m)"
  have lack: "summary ''success'' = None \<or> summary ''failure'' = None"
    using assms(7) by (auto simp: summary_def)
  have first: "res_summary res = None \<or> (\<exists>m. res_summary res = Some m \<and> m ''success'' = None)
      \<Longrightarrow> summary ''success'' = None"
    by (auto simp: summary_def)
  have pk: "(propagate a s res st2 = Inl KeyError \<or> propagate a s res st2 = Inl ZeroDivisionError) \<and>
      (summary ''success'' = None \<longrightarrow> propagate a s res st2 = Inl KeyError)" for st2
  proof (cases "res_success res")
    case None
    then show ?thesis by (simp add: propagate_def)
  next
    case (Some ok)
    define status where "status = (if ok then ''success'' else ''failure'')"
    have pe: "propagate a s res st2 =
        (case follow_edges a s status summary ''success'' st2 of
               Inl e \<Rightarrow> Inl e
             | Inr st3 \<Rightarrow> follow_edges a s status summary ''failure'' st3)"
      unfolding propagate_def Some status_def summary_def using assms(3)
      by (simp add: Let_def)
    show ?thesis
    proof (cases "summary ''success''")
      case None
      then have "follow_edges a s status summary ''success'' st2 = Inl KeyError"
        using assms(3) by (simp add: follow_edges_def)
      then show ?thesis using pe by simp
    next
      case (Some b)
      then have f: "summary ''failure'' = None" using lack by simp
      show ?thesis
      proof (cases "follow_edges a s status summary ''success'' st2")
        case (Inl e)
        then show ?thesis using pe follow_edges_error[OF Inl] Some by auto
      next
        case (Inr st3)
        have "follow_edges a s status summary ''failure'' st3 = Inl KeyError"
          using assms(3) f by (simp add: follow_edges_def)
        then show ?thesis using pe Inr Some by simp
      qed
    qed
  qed
  have lbp: "loop_body a st = propagate a s res
       (st\<lparr>services := h', iteration := Suc (iteration st),
                     number_of_runs := (number_of_runs st)(name s := number_of_runs st (name s) + 1),
                     visited := insert (service_id s) (visited st)\<rparr>)"
    using lb assms(5,6) by (simp add: Let_def)
  have jl: "job a = Inl e" if "loop_body a st = Inl e" for e
  proof -
    have "job_loop a st = Inl e" using that ne ns by (subst job_loop.simps) simp
    then show ?thesis
      using job_iter_loop[OF assms(2)] assms(1) by (simp add: job_def)
  qed
  show ?thesis
    using pk[of "st\<lparr>services := h', iteration := Suc (iteration st),
                     number_of_runs := (number_of_runs st)(name s := number_of_runs st (name s) + 1),
                     visited := insert (service_id s) (visited st)\<rparr>"] lbp jl first
    by auto
qed

section \<open>Sample runs\<close>

lemmas eval_simps = job_def job_loop.simps job_init_def heap_key_def heappush_def siftdown_def
  siftdown_loop.simps heappop_def siftup_def siftup_loop.simps entry_lt_def service_lt_def
  loop_body_def propagate_def follow_edges_def visit_successor_def
  neighbors_def destinations_def is_skipped_def skipped_results_def runner_results_def
  tracking_bfs_def tracking_bfs_or_device_def start_targets_def empty_state_def
  dispatched_def final_results_def aborted_def taken_edges_def edge_increment_def
  push_service_def
  sample_service_def sample_edge_def success_results_def d1_runner_def never_stopped_def
  stopped_at_1_def sample_args_def linear_edges_def linear_args_def stopped_args_def
  Start_def End_def A_def seeded_state_def after_start_state_def Let_def
  B_def Urgent_def Twice_def Zero_def bare_runner_def no_runner_def
  service_targets_args_def restart_args_def bare_args_def zero_args_def tie_edges_def
  tie_args_def tie_state_def fork_edges_def fork_args_def fork_state_def twice_edges_def
  twice_args_def restart_final_state_def linear_final_state_def linear_result_def

theorem tracking_bfs_propagates_device_sets_witness:
  "targets (projr (propagate linear_args A (success_results [''d1'']) after_start_state)) ''End''
     = {''d1''} \<and>
   state_writes (projr (propagate linear_args A (success_results [''d1'']) after_start_state))
     = [WriteState (EdgesPath 1) (IntValue 1) (Some ''increment''),
        WriteState (EdgesPath 2) (IntValue 1) (Some ''increment'')] \<and>
   targets (projr (propagate service_targets_args A (success_results [''d1'']) seeded_state))
     = targets seeded_state \<and>
   state_writes (projr (propagate service_targets_args A (success_results [''d1'']) seeded_state))
     = [WriteState (ProgressServicePath ''success'') (IntValue 1) (Some ''increment''),
        WriteState (EdgesPath 2) (StrValue ''DONE'') None]"
proof -
  let ?m = "[''success'' \<mapsto> DevList [''d1''], ''failure'' \<mapsto> DevList []]"
  have h1: "tracking_bfs linear_args" by (simp add: eval_simps)
  have h2: "res_success (success_results [''d1'']) = Some True" by (simp add: success_results_def)
  have h3: "res_summary (success_results [''d1'']) = Some ?m" by (simp add: success_results_def)
  have h4: "?m ''success'' = Some (DevList [''d1''])" by simp
  have h5: "?m ''failure'' = Some (DevList [])" by simp
  have h6: "\<forall>se \<in> set (taken_edges linear_args A ?m ''success'') \<union>
              set (taken_edges linear_args A ?m ''failure''). priority (fst se) \<noteq> 0"
    by (simp add: eval_simps)
  have r1: "run_method (run service_targets_args) = ''per_service_with_service_targets''"
    by (simp add: eval_simps)
  have r2: "device service_targets_args = None" by (simp add: eval_simps)
  have r3: "\<forall>se \<in> set (neighbors (db_edges service_targets_args) A (self_name service_targets_args)
              (if True then ''success'' else ''failure'')). priority (fst se) \<noteq> 0"
    by (simp add: eval_simps)
  note a = tracking_bfs_propagates_device_sets[OF h2, where a = linear_args and s = A
      and st = after_start_state, THEN conjunct1, THEN mp, OF h1, THEN mp, OF h3, THEN mp, OF h4,
      THEN mp, OF h5, THEN mp, OF h6]
  note b = tracking_bfs_propagates_device_sets[OF h2, where a = service_targets_args and s = A
      and st = seeded_state, THEN conjunct2, THEN mp, OF r1, THEN mp, OF r2, THEN mp, OF r3]
  have "targets (projr (propagate linear_args A (success_results [''d1'']) after_start_state)) ''End''
     = {''d1''} \<and>
   state_writes (projr (propagate linear_args A (success_results [''d1'']) after_start_state))
     = [WriteState (EdgesPath 1) (IntValue 1) (Some ''increment''),
        WriteState (EdgesPath 2) (IntValue 1) (Some ''increment'')]"
    unfolding a by (simp add: eval_simps)
  moreover have "targets (projr (propagate service_targets_args A (success_results [''d1''])
        seeded_state)) = targets seeded_state \<and>
   state_writes (projr (propagate service_targets_args A (success_results [''d1'']) seeded_state))
     = [WriteState (ProgressServicePath ''success'') (IntValue 1) (Some ''increment''),
        WriteState (EdgesPath 2) (StrValue ''DONE'') None]"
    unfolding b by (simp add: eval_simps edge_done_def)
  ultimately show ?thesis by simp
qed

theorem tracking_bfs_propagates_device_sets_counterexample:
  "run_method (run service_targets_args) = ''per_service_with_service_targets'' \<and>
   \<not> isl (job service_targets_args) \<and>
   targets (snd (projr (job service_targets_args))) (name End) = {} \<and>
   state_writes (snd (projr (job service_targets_args))) =
     [WriteState (ProgressServicePath ''success'') (IntValue 1) (Some ''increment''),
      WriteState (EdgesPath 1) (StrValue ''DONE'') None,
      WriteState (ProgressServicePath ''success'') (IntValue 1) (Some ''increment''),
      WriteState (EdgesPath 2) (StrValue ''DONE'') None,
      WriteState (ProgressServicePath ''success'') (IntValue 1) (Some ''increment'')]"
  by (simp add: eval_simps)

theorem dispatch_count_le_maximum_runs_witness:
  "dispatch_count twice_args Twice 6 seeded_state = 2 \<and>
   int (dispatch_count twice_args Twice 6 seeded_state) \<le> max 0 (maximum_runs Twice) \<and>
   loop_body (twice_args\<lparr>runner := no_runner\<rparr>) capped_state =
     Inr (capped_state\<lparr>services := [], iteration := 3\<rparr>) \<and>
   number_of_runs seeded_state (name Start) < maximum_runs Start"
proof -
  have h1: "job_init twice_args = Inr seeded_state" by (simp add: eval_simps)
  note t = dispatch_count_le_maximum_runs[OF h1, where s = Twice and n = 6]
  have c: "dispatch_count twice_args Twice 6 seeded_state = 2"
    by (simp add: eval_simps eval_nat_numeral)
  have a1: "int (dispatch_count twice_args Twice 6 seeded_state) \<le> max 0 (maximum_runs Twice)"
    by (rule t[THEN conjunct1])
  have s1: "services capped_state \<noteq> []" by (simp add: capped_state_def)
  have s2: "\<not> stop (run twice_args) (iteration capped_state)" by (simp add: eval_simps capped_state_def)
  have s3: "dispatched twice_args capped_state = None" by (simp add: eval_simps capped_state_def)
  have pop: "heappop (services capped_state) = Inr ((1, End), [])"
    by (simp add: eval_simps capped_state_def)
  from t[THEN conjunct2, THEN conjunct1, rule_format, OF s1 s2 s3] obtain x h' where
    p: "heappop (services capped_state) = Inr (x, h')"
    and l: "\<forall>r. loop_body (twice_args\<lparr>runner := r\<rparr>) capped_state =
                  Inr (capped_state\<lparr>services := h', iteration := Suc (iteration capped_state)\<rparr>)"
    by blast
  have "h' = []" using p pop by simp
  then have a2: "loop_body (twice_args\<lparr>runner := no_runner\<rparr>) capped_state =
     Inr (capped_state\<lparr>services := [], iteration := 3\<rparr>)"
    using l by (simp add: capped_state_def)
  have d: "dispatched twice_args seeded_state = Some Start" by (simp add: eval_simps)
  from t[THEN conjunct2, THEN conjunct2, rule_format, OF d]
  have a3: "number_of_runs seeded_state (name Start) < maximum_runs Start" by blast
  show ?thesis using c a1 a2 a3 by simp
qed

theorem dispatch_count_le_maximum_runs_counterexample:
  "job_init never_args = Inr never_state \<and>
   \<not> int (dispatch_count never_args Never 3 never_state) \<le> maximum_runs Never"
  by (simp add: eval_simps Never_def never_args_def never_state_def numeral_3_eq_3)

theorem job_tracking_result_witness:
  "job honest_args = Inr (linear_result, linear_final_state) \<and>
   targets linear_final_state (name End) \<subseteq> targets linear_final_state (name Start) \<and>
   out_summary linear_result = Some [''success'' \<mapsto> {''d1''}, ''failure'' \<mapsto> {}] \<and>
   out_success linear_result"
proof -
  have h1: "job honest_args = Inr (linear_result, linear_final_state)"
    by (simp add: eval_simps honest_args_def honest_runner_def)
  have h2: "out_result linear_result \<noteq> Some ''Aborted''" by (simp add: linear_result_def)
  have h3: "tracking_bfs honest_args \<or> device honest_args \<noteq> None"
    by (simp add: eval_simps honest_args_def)
  have h4: "start_is_seeded honest_args"
    by (simp add: start_is_seeded_def honest_args_def sample_args_def)
  have h5: "runner_reports_given honest_args"
    by (auto simp: runner_reports_given_def honest_args_def sample_args_def honest_runner_def
        split: if_splits)
  from job_tracking_result[OF h1 h2 h3 h4 h5] h1 show ?thesis
    by (simp add: linear_final_state_def End_def Start_def sample_service_def sample_args_def
        honest_args_def linear_result_def)
qed

theorem job_tracking_result_counterexample:
  "\<not> isl (job restart_args) \<and>
   out_success (fst (projr (job restart_args))) \<and>
   targets (snd (projr (job restart_args))) (name End) = {''d1''} \<and>
   targets (snd (projr (job restart_args))) (name Start) = {} \<and>
   \<not> isl (job d2_args) \<and>
   targets (snd (projr (job d2_args))) (name End) = {''d2''} \<and>
   targets (snd (projr (job d2_args))) (name Start) = {''d1''} \<and>
   \<not> isl (job service_targets_args) \<and>
   out_summary (fst (projr (job service_targets_args))) = None \<and>
   \<not> isl (job stopped_args) \<and>
   out_summary (fst (projr (job stopped_args))) = None"
  by (simp add: eval_simps d2_args_def d2_runner_def)

theorem skipped_service_synthesized_witness:
  "loop_body (linear_args\<lparr>runner := no_runner\<rparr>) seeded_state = Inr after_start_state"
proof -
  have h1: "dispatched linear_args seeded_state = Some Start" by (simp add: eval_simps)
  have h2: "is_skipped linear_args Start" by (simp add: eval_simps)
  have h3: "heappop (services seeded_state) = Inr ((1, Start), [])" by (simp add: eval_simps)
  from skipped_service_synthesized[OF h1 h2 h3, of no_runner] show ?thesis
    by (simp add: eval_simps)
qed

theorem skipped_service_synthesized_counterexample:
  "run_method (run service_targets_args) = ''per_service_with_service_targets'' \<and>
   dispatched service_targets_args seeded_state = Some Start \<and>
   res_summary (skipped_results service_targets_args seeded_state Start) = None"
  by (simp add: eval_simps)

theorem higher_priority_popped_first_witness:
  "heappop (services fork_state) = Inr ((1 / 2, Urgent), [(1, A)]) \<and> Urgent \<noteq> A"
proof -
  have h1: "job_init fork_args = Inr seeded_state" by (simp add: eval_simps)
  have h2: "job_iter fork_args 1 seeded_state = Some fork_state" by (simp add: eval_simps)
  have h3: "heappop (services fork_state) = Inr ((1 / 2, Urgent), [(1, A)])"
    by (simp add: eval_simps)
  have h4: "(1 / 2, Urgent) \<in> set (services fork_state)" by (simp add: fork_state_def)
  have h5: "(1, A) \<in> set (services fork_state)" by (simp add: fork_state_def)
  have h6: "0 < priority (snd (1 :: rat, A))" by (simp add: A_def sample_service_def)
  have h7: "priority (snd (1 :: rat, A)) < priority (snd (1 / 2 :: rat, Urgent))"
    by (simp add: A_def Urgent_def sample_service_def)
  have h8: "priority (snd (1 :: rat, A)) < 2 ^ 52" by (simp add: A_def sample_service_def)
  from higher_priority_popped_first[OF h1 h2 h3 h4 h5 h6 h7 h8] h3 show ?thesis by simp
qed

theorem higher_priority_popped_first_counterexample:
  "priority A = priority B \<and>
   map fst (neighbors (db_edges tie_args) Start (self_name tie_args) ''success'') = [A, B] \<and>
   job_iter tie_args 1 seeded_state = Some tie_state \<and>
   dispatched tie_args tie_state = Some B \<and>
   priority Lo < priority Hi \<and>
   map fst (neighbors (db_edges collide_args) Start (self_name collide_args) ''success'') = [Hi, Lo] \<and>
   dispatched collide_args (the (job_iter collide_args 1 seeded_state)) = Some Lo \<and>
   priority Neg < priority A \<and>
   map fst (neighbors (db_edges negative_args) Start (self_name negative_args) ''success'') = [Neg, A] \<and>
   dispatched negative_args (the (job_iter negative_args 1 seeded_state)) = Some Neg"
  by (simp add: eval_simps float_reciprocal_def round_half_even_def Hi_def Lo_def Neg_def
      collide_edges_def collide_args_def negative_edges_def negative_args_def)

theorem zero_priority_raises_witness:
  "job zero_args = Inl ZeroDivisionError \<and>
   visit_successor linear_args [''success'' \<mapsto> DevList [''d1'']] ''success'' seeded_state
     (Zero, sample_edge 9 ''success'' Start Zero) = Inl ZeroDivisionError"
proof -
  have h1: "priority Zero = 0" by (simp add: Zero_def sample_service_def)
  have h2: "Zero \<in> set (if start_services (run zero_args) = [] then [db_start zero_args]
                         else start_services (run zero_args))"
    by (simp add: zero_args_def sample_args_def)
  from zero_priority_raises[OF h1, of zero_args] h2
  have a: "job zero_args = Inl ZeroDivisionError" by blast
  from zero_priority_raises[OF h1, of linear_args "[''success'' \<mapsto> DevList [''d1'']]" "''success''"
      seeded_state "sample_edge 9 ''success'' Start Zero"]
  have b: "visit_successor linear_args [''success'' \<mapsto> DevList [''d1'']] ''success'' seeded_state
     (Zero, sample_edge 9 ''success'' Start Zero) = Inl ZeroDivisionError" by simp
  from a b show ?thesis by simp
qed

theorem zero_priority_raises_counterexample:
  "priority Zero = 0 \<and> start_services (run zero_args) = [Zero] \<and>
   job zero_args = Inl ZeroDivisionError"
  by (simp add: eval_simps)

theorem job_stop_aborted_witness:
  "job stopped_args =
     Inr (\<lparr>out_payload = (), out_success = False, out_result = Some ''Aborted'',
           out_summary = None\<rparr>, after_start_state)"
proof -
  have h1: "job_init stopped_args = Inr seeded_state" by (simp add: eval_simps)
  have h2: "job_iter stopped_args 1 seeded_state = Some after_start_state"
    by (simp add: eval_simps)
  have h3: "services after_start_state \<noteq> []" by (simp add: after_start_state_def)
  have h4: "stop (run stopped_args) 1"
    by (simp add: stopped_args_def sample_args_def stopped_at_1_def)
  from job_stop_aborted[OF h1 h2 h3 h4] show ?thesis
    by (simp add: stopped_args_def sample_args_def)
qed

theorem scheduler_client_catches_witness:
  "next_run_time (Inl refused) = Inr (JStr ''Scheduler Unreachable'') \<and>
   time_before_next_run (Inl timed_out) = Inr (JStr ''Scheduler Unreachable'') \<and>
   schedule (sample_calls (Inl refused)) idle_task =
     (Inr (JObj [(''alert'', JStr ''Scheduler Unreachable: the task cannot be scheduled.'')]),
      idle_task) \<and>
   schedule (sample_calls (Inl timed_out)) idle_task =
     (Inr (JStr ''Scheduler Unreachable''), idle_task) \<and>
   schedule (sample_calls (Inr (Inl malformed))) idle_task =
     (Inr (JStr ''Error (Expecting value: line 1 column 1 (char 0))''), idle_task) \<and>
   \<not> isinstance_Exception interrupted"
proof -
  have c1: "isinstance_ConnectionError refused"
    by (simp add: refused_def isinstance_ConnectionError_def)
  have c2: "exc_class timed_out = ReadTimeout" by (simp add: timed_out_def)
  have c3: "exc_class malformed = JSONDecodeError" by (simp add: malformed_def)
  have p: "get_properties (sample_calls http) = Inr (JObj [])" for http
    by (simp add: sample_calls_def)
  have q: "post_response (sample_calls http) = http" for http
    by (simp add: sample_calls_def)
  have r: "next_run_time (Inl interrupted) = Inl interrupted"
    by (simp add: next_run_time_def response_json_def catch_request_exceptions_def
        interrupted_def isinstance_ConnectionError_def isinstance_Exception_def)
  note t1 = scheduler_client_catches[of refused "sample_calls (Inl refused)" "JObj []" idle_task
      "Inl refused"]
  note t2 = scheduler_client_catches[of timed_out "sample_calls (Inl timed_out)" "JObj []"
      idle_task "Inl timed_out"]
  note t3 = scheduler_client_catches[of malformed "sample_calls (Inr (Inl malformed))" "JObj []"
      idle_task "Inl malformed"]
  note t4 = scheduler_client_catches[of interrupted "sample_calls (Inl interrupted)" "JObj []"
      idle_task "Inl interrupted"]
  have a1: "next_run_time (Inl refused) = Inr (JStr ''Scheduler Unreachable'')"
    using t1 c1 by blast
  have a2: "time_before_next_run (Inl timed_out) = Inr (JStr ''Scheduler Unreachable'')"
    using t2 c2 by blast
  have a3: "schedule (sample_calls (Inl refused)) idle_task =
     (Inr (JObj [(''alert'', JStr ''Scheduler Unreachable: the task cannot be scheduled.'')]),
      idle_task)"
    using t1 c1 p q by blast
  have a4: "schedule (sample_calls (Inl timed_out)) idle_task =
     (Inr (JStr ''Scheduler Unreachable''), idle_task)"
    using t2 c2 p q by blast
  have a5: "schedule (sample_calls (Inr (Inl malformed))) idle_task =
     (Inr (JStr (''Error ('' @ exc_message malformed @ '')'')), idle_task)"
    using t3 c3 p q by blast
  have a6: "\<not> isinstance_Exception interrupted"
    using t4 r by blast
  show ?thesis
    using a1 a2 a3 a4 a5 a6 by (simp add: malformed_def)
qed

theorem scheduler_client_catches_counterexample:
  "exc_class malformed = JSONDecodeError \<and>
   fst (schedule (sample_calls (Inr (Inl malformed))) idle_task) =
     Inr (JStr ''Error (Expecting value: line 1 column 1 (char 0))'') \<and>
   exc_class timed_out = ReadTimeout \<and>
   fst (schedule (sample_calls (Inl timed_out)) idle_task) = Inr (JStr ''Scheduler Unreachable'') \<and>
   exc_class interrupted = KeyboardInterrupt \<and>
   next_run_time (Inl interrupted) = Inl interrupted"
  by (simp add: schedule_def schedule_body_def response_json_def sample_calls_def
      catch_request_exceptions_def isinstance_ConnectionError_def isinstance_Exception_def
      malformed_def timed_out_def interrupted_def idle_task_def next_run_time_def)

theorem password_roundtrip_witness:
  "encrypt_password plain_environment 0 (Str [104, 105]) = Inr ''aGk='' \<and>
   get_password plain_environment (Bytes ''aGk='') = Inr (Some [104, 105]) \<and>
   get_password (projr (init_encryption sample_Fernet (Some sample_key)))
     (Bytes (projr (encrypt_password (projr (init_encryption sample_Fernet (Some sample_key))) 0
        (Str [104, 105])))) = Inr (Some [104, 105])"
proof -
  have i: "init_encryption sample_Fernet None = Inr plain_environment"
    by (simp add: init_encryption_def plain_environment_def)
  have c: "fernet_contract sample_Fernet"
    by (auto simp: fernet_contract_def sample_Fernet_def split: if_splits)
  have n: "[104, 105] \<noteq> ([] :: nat list)" by simp
  have e: "encodable [104, 105]" by (simp add: encodable_def surrogate_def)
  have v: "encrypt_password plain_environment 0 (Str [104, 105]) = Inr ''aGk=''"
    by (simp add: encrypt_password_def plain_environment_def utf8_encode_char_def b64_char_def
        Let_def char_of_def bit_iff_odd)
  obtain env where j: "init_encryption sample_Fernet (Some sample_key) = Inr env"
    by (simp add: init_encryption_def sample_Fernet_def sample_key_def)
  from password_roundtrip[OF i c n e, of 0] v
  have "get_password plain_environment (Bytes ''aGk='') = Inr (Some [104, 105])" by auto
  moreover from password_roundtrip[OF j c n e, of 0] j
  have "get_password (projr (init_encryption sample_Fernet (Some sample_key)))
     (Bytes (projr (encrypt_password (projr (init_encryption sample_Fernet (Some sample_key))) 0
        (Str [104, 105])))) = Inr (Some [104, 105])" by auto
  ultimately show ?thesis using v by simp
qed

theorem password_roundtrip_counterexample:
  "[55296] \<noteq> ([] :: nat list) \<and>
   init_encryption sample_Fernet None = Inr plain_environment \<and>
   encrypt_password plain_environment 0 (Str [55296]) = Inl UnicodeEncodeError"
  by (simp add: encrypt_password_def utf8_encode_char_def surrogate_def init_encryption_def
      plain_environment_def)

theorem missing_summary_raises_KeyError_witness:
  "job bare_args = Inl KeyError"
proof -
  let ?res = "\<lparr>res_success = Some True, res_result = None, res_summary = None\<rparr>"
  have h1: "job_init bare_args = Inr seeded_state" by (simp add: eval_simps)
  have h2: "job_iter bare_args 1 seeded_state = Some after_start_state"
    by (simp add: eval_simps)
  have h3: "tracking_bfs bare_args" by (simp add: eval_simps)
  have h4: "dispatched bare_args after_start_state = Some A" by (simp add: eval_simps)
  have h5: "\<not> is_skipped bare_args A" by (simp add: eval_simps)
  have h6: "runner_results bare_args after_start_state A = Some ?res"
    by (simp add: eval_simps)
  have h7: "res_summary ?res = None \<or>
         (\<exists>m. res_summary ?res = Some m \<and> (m ''success'' = None \<or> m ''failure'' = None))"
    by simp
  from missing_summary_raises_KeyError[OF h1 h2 h3 h4 h5 h6 h7] show ?thesis by simp
qed

end
